theory Spec2Isabelle
  imports Main "HOL-Library.Multiset"
begin

section \<open>JavaScript values\<close>

text \<open>
  The facade of \<^verbatim>\<open>src/firebaseDb.js\<close> works on untyped JavaScript values: the documents
  delivered by the realtime subscription, the argument of \<^verbatim>\<open>getRegionData\<close>, the result of
  \<^verbatim>\<open>JSON.parse\<close>. They are modelled as trees.

  Strings are byte lists holding the UTF-8 encoding of the text.

  A number is \<open>NaN\<close>, an infinity, or a finite decimal \<open>Fin m e\<close> standing for
  \<open>m * 10 ^ e\<close>. A double is represented by its shortest decimal that reads back as the
  same double (the decimal \<^verbatim>\<open>Number.prototype.toString\<close> prints), kept in canonical form:
  zero is \<open>Fin 0 0\<close>, any other mantissa has no trailing zero. A decimal of up to 15
  significant digits inside the range of the doubles is such a shortest decimal; the
  rounding of a longer mantissa to 53 bits is not modelled, and there is one zero.

  An object is the list of its own properties in the order of their creation. The values
  are data (what JSON and the document store hold): no property is a function.
\<close>

datatype jsnum = NaN | PosInf | NegInf | Fin int int

datatype jsval =
    JUndefined
  | JNull
  | JBool bool
  | JNum jsnum
  | JStr string
  | JArr "jsval list"
  | JObj "(string \<times> jsval) list"

type_synonym jsobj = "(string \<times> jsval) list"

subsection \<open>Finite decimals\<close>

function norm_dec :: "int \<Rightarrow> int \<Rightarrow> int \<times> int" where
  "norm_dec m e =
     (if m = 0 then (0, 0)
      else if m mod 10 = 0 then norm_dec (m div 10) (e + 1)
      else (m, e))"
  by pat_completeness auto
termination
  by (relation "measure (\<lambda>(m, e). nat \<bar>m\<bar>)") auto

declare norm_dec.simps [simp del]

definition mk_fin :: "int \<Rightarrow> int \<Rightarrow> jsnum" where
  "mk_fin m e = (case norm_dec m e of (m', e') \<Rightarrow> Fin m' e')"

fun canon :: "jsnum \<Rightarrow> bool" where
  "canon (Fin m e) = (if m = 0 then e = 0 else m mod 10 \<noteq> 0)"
| "canon _ = True"

text \<open>Both mantissas brought to the smaller of the two exponents.\<close>

definition align :: "int \<Rightarrow> int \<Rightarrow> int \<Rightarrow> int \<Rightarrow> int \<times> int" where
  "align m1 e1 m2 e2 =
     (let e = min e1 e2
      in (m1 * 10 ^ nat (e1 - e), m2 * 10 ^ nat (e2 - e)))"

text \<open>\<open>js_sub a b\<close> is the JavaScript \<^verbatim>\<open>a - b\<close> on numbers.\<close>

fun js_sub :: "jsnum \<Rightarrow> jsnum \<Rightarrow> jsnum" where
  "js_sub NaN _ = NaN"
| "js_sub _ NaN = NaN"
| "js_sub PosInf PosInf = NaN"
| "js_sub NegInf NegInf = NaN"
| "js_sub PosInf _ = PosInf"
| "js_sub NegInf _ = NegInf"
| "js_sub _ PosInf = NegInf"
| "js_sub _ NegInf = PosInf"
| "js_sub (Fin m1 e1) (Fin m2 e2) =
     (case align m1 e1 m2 e2 of (a, b) \<Rightarrow> mk_fin (a - b) (min e1 e2))"

text \<open>\<open>num_pos v\<close> is the JavaScript \<^verbatim>\<open>v > 0\<close> on numbers (false on \<open>NaN\<close>).\<close>

fun num_pos :: "jsnum \<Rightarrow> bool" where
  "num_pos PosInf = True"
| "num_pos (Fin m e) = (0 < m)"
| "num_pos _ = False"

text \<open>
  The order of the number line on the numbers other than \<open>NaN\<close>: \<open>num_less a b\<close> is
  \<^verbatim>\<open>a < b\<close>.
\<close>

fun num_less :: "jsnum \<Rightarrow> jsnum \<Rightarrow> bool" where
  "num_less NaN _ = False"
| "num_less _ NaN = False"
| "num_less PosInf _ = False"
| "num_less _ NegInf = False"
| "num_less _ PosInf = True"
| "num_less NegInf _ = True"
| "num_less (Fin m1 e1) (Fin m2 e2) = (case align m1 e1 m2 e2 of (a, b) \<Rightarrow> a < b)"

definition num_eq :: "jsnum \<Rightarrow> jsnum \<Rightarrow> bool" where
  "num_eq a b = (a \<noteq> NaN \<and> b \<noteq> NaN \<and> \<not> num_less a b \<and> \<not> num_less b a)"

subsection \<open>Numbers to text: \<^verbatim>\<open>Number.prototype.toString\<close>\<close>

definition digit_char :: "nat \<Rightarrow> char" where
  "digit_char d = ''0123456789'' ! d"

function digits :: "nat \<Rightarrow> string" where
  "digits n = (if n < 10 then [digit_char n] else digits (n div 10) @ [digit_char (n mod 10)])"
  by pat_completeness auto
termination
  by (relation "measure id") auto

declare digits.simps [simp del]

text \<open>
  A positive decimal with digit string \<open>ds\<close> (\<open>k\<close> digits) and value
  \<open>0.ds * 10 ^ n\<close>: plain digits up to 21 integer digits, a leading \<open>0.\<close> down to
  \<open>10 ^ -7\<close>, the exponent form elsewhere.
\<close>

definition pos_to_string :: "int \<Rightarrow> int \<Rightarrow> string" where
  "pos_to_string m e =
     (let ds = digits (nat m); k = int (length ds); n = e + k
      in if k \<le> n \<and> n \<le> 21 then ds @ replicate (nat (n - k)) (CHR ''0'')
         else if 0 < n \<and> n \<le> 21 then take (nat n) ds @ ''.'' @ drop (nat n) ds
         else if - 6 < n \<and> n \<le> 0 then ''0.'' @ replicate (nat (- n)) (CHR ''0'') @ ds
         else (if k = 1 then ds else take 1 ds @ ''.'' @ drop 1 ds) @ ''e''
              @ (if n - 1 < 0 then ''-'' else ''+'') @ digits (nat \<bar>n - 1\<bar>))"

fun num_to_string :: "jsnum \<Rightarrow> string" where
  "num_to_string NaN = ''NaN''"
| "num_to_string PosInf = ''Infinity''"
| "num_to_string NegInf = ''-Infinity''"
| "num_to_string (Fin m e) =
     (case norm_dec m e of (m', e') \<Rightarrow>
        if m' = 0 then ''0''
        else if m' < 0 then ''-'' @ pos_to_string (- m') e'
        else pos_to_string m' e')"

declare num_to_string.simps [simp del]

subsection \<open>Text to numbers: \<^verbatim>\<open>parseFloat\<close> and \<^verbatim>\<open>ToNumber\<close>\<close>

definition is_digit :: "char \<Rightarrow> bool" where
  "is_digit c = (c \<in> set ''0123456789'')"

definition hex_val :: "char \<Rightarrow> nat option" where
  "hex_val c =
     map_of [(CHR ''0'', 0), (CHR ''1'', 1), (CHR ''2'', 2), (CHR ''3'', 3), (CHR ''4'', 4),
             (CHR ''5'', 5), (CHR ''6'', 6), (CHR ''7'', 7), (CHR ''8'', 8), (CHR ''9'', 9),
             (CHR ''a'', 10), (CHR ''b'', 11), (CHR ''c'', 12), (CHR ''d'', 13),
             (CHR ''e'', 14), (CHR ''f'', 15),
             (CHR ''A'', 10), (CHR ''B'', 11), (CHR ''C'', 12), (CHR ''D'', 13),
             (CHR ''E'', 14), (CHR ''F'', 15)] c"

definition nat_of_base :: "nat \<Rightarrow> string \<Rightarrow> nat" where
  "nat_of_base b ds = foldl (\<lambda>n c. b * n + (case hex_val c of None \<Rightarrow> 0 | Some d \<Rightarrow> d)) 0 ds"

definition scan_sign :: "string \<Rightarrow> int \<times> string" where
  "scan_sign s =
     (case s of
        c # r \<Rightarrow> if c = CHR ''+'' then (1, r) else if c = CHR ''-'' then (- 1, r) else (1, s)
      | [] \<Rightarrow> (1, s))"

text \<open>The exponent part, when one is there: its value and the text behind it.\<close>

definition scan_exp :: "string \<Rightarrow> int \<times> string" where
  "scan_exp s =
     (case s of
        c # r \<Rightarrow>
          if c = CHR ''e'' \<or> c = CHR ''E'' then
            (case scan_sign r of (sg, r') \<Rightarrow>
               if takeWhile is_digit r' = [] then (0, s)
               else (sg * int (nat_of_base 10 (takeWhile is_digit r')), dropWhile is_digit r'))
          else (0, s)
      | [] \<Rightarrow> (0, s))"

text \<open>
  The range of the doubles: a decimal at or above \<open>2 ^ 1024 - 2 ^ 970\<close> in magnitude reads as
  an infinity, one at or below \<open>2 ^ - 1075\<close> as zero.
\<close>

definition round_range :: "int \<Rightarrow> int \<Rightarrow> jsnum" where
  "round_range m e =
     (if (if 0 \<le> e then 2 ^ 1024 - 2 ^ 970 \<le> \<bar>m\<bar> * 10 ^ nat e
          else (2 ^ 1024 - 2 ^ 970) * 10 ^ nat (- e) \<le> \<bar>m\<bar>)
      then (if m < 0 then NegInf else PosInf)
      else if e < 0 \<and> \<bar>m\<bar> * 2 ^ 1075 \<le> 10 ^ nat (- e) then Fin 0 0
      else mk_fin m e)"

text \<open>
  The longest prefix of the text that is a \<^verbatim>\<open>StrDecimalLiteral\<close>: its value and the text
  behind it, \<open>None\<close> when no prefix is one.
\<close>

definition scan_decimal :: "string \<Rightarrow> (jsnum \<times> string) option" where
  "scan_decimal s =
     (case scan_sign s of (sg, s1) \<Rightarrow>
        if take 8 s1 = ''Infinity'' then Some (if sg = 1 then PosInf else NegInf, drop 8 s1)
        else
          let ds1 = takeWhile is_digit s1;
              r1 = dropWhile is_digit s1;
              (ds2, r2) = (case r1 of
                             c # r \<Rightarrow> if c = CHR ''.''
                                      then (takeWhile is_digit r, dropWhile is_digit r)
                                      else ([], r1)
                           | [] \<Rightarrow> ([], r1))
          in if ds1 = [] \<and> ds2 = [] then None
             else (case scan_exp r2 of (ex, r3) \<Rightarrow>
                     Some (round_range (sg * int (nat_of_base 10 (ds1 @ ds2)))
                             (ex - int (length ds2)),
                           r3)))"

text \<open>
  The white space and line terminators of \<^verbatim>\<open>StrWhiteSpaceChar\<close>, each as its UTF-8 bytes:
  U+0009 to U+000D, U+0020, U+00A0, U+1680, U+2000 to U+200A, U+2028, U+2029, U+202F,
  U+205F, U+3000 and U+FEFF.
\<close>

definition white_space :: "string list" where
  "white_space =
     [[CHR 0x09], [CHR 0x0A], [CHR 0x0B], [CHR 0x0C], [CHR 0x0D], [CHR 0x20],
      [CHR 0xC2, CHR 0xA0], [CHR 0xE1, CHR 0x9A, CHR 0x80]]
     @ map (\<lambda>b. [CHR 0xE2, CHR 0x80, b])
         [CHR 0x80, CHR 0x81, CHR 0x82, CHR 0x83, CHR 0x84, CHR 0x85, CHR 0x86, CHR 0x87,
          CHR 0x88, CHR 0x89, CHR 0x8A, CHR 0xA8, CHR 0xA9, CHR 0xAF]
     @ [[CHR 0xE2, CHR 0x81, CHR 0x9F], [CHR 0xE3, CHR 0x80, CHR 0x80],
        [CHR 0xEF, CHR 0xBB, CHR 0xBF]]"

text \<open>Dropping from the head of a text every occurrence of one of the given sequences.\<close>

function skip :: "string list \<Rightarrow> string \<Rightarrow> string" where
  "skip seqs s =
     (case find (\<lambda>w. w \<noteq> [] \<and> take (length w) s = w) seqs of
        None \<Rightarrow> s
      | Some w \<Rightarrow> skip seqs (drop (length w) s))"
  by pat_completeness auto
termination
proof (relation "measure (\<lambda>(seqs, s). length s)")
  show "wf (measure (\<lambda>(seqs, s). length s))" by simp
next
  fix seqs :: "string list" and s w :: string
  assume "find (\<lambda>w. w \<noteq> [] \<and> take (length w) s = w) seqs = Some w"
  then have w: "w \<noteq> []" "take (length w) s = w"
    by (auto simp: find_Some_iff)
  have "length w = length (take (length w) s)" using w(2) by simp
  then have "length w \<le> length s" by simp
  with w(1) show "((seqs, drop (length w) s), (seqs, s)) \<in> measure (\<lambda>(seqs, s). length s)"
    by (cases w) auto
qed

declare skip.simps [simp del]

definition parse_float_string :: "string \<Rightarrow> jsnum" where
  "parse_float_string s =
     (case scan_decimal (skip white_space s) of None \<Rightarrow> NaN | Some (n, _) \<Rightarrow> n)"

definition trim :: "string \<Rightarrow> string" where
  "trim s = rev (skip (map rev white_space) (rev (skip white_space s)))"

definition radix_literal :: "string \<Rightarrow> jsnum option" where
  "radix_literal t =
     (let b = (if take 2 t \<in> {''0x'', ''0X''} then 16
               else if take 2 t \<in> {''0o'', ''0O''} then 8
               else if take 2 t \<in> {''0b'', ''0B''} then 2 else 0);
          ds = drop 2 t
      in if b = 0 then None
         else if ds \<noteq> [] \<and> (\<forall>c \<in> set ds. case hex_val c of None \<Rightarrow> False | Some d \<Rightarrow> d < b)
              then Some (round_range (int (nat_of_base b ds)) 0)
              else Some NaN)"

text \<open>\<^verbatim>\<open>StringToNumber\<close>: the whole trimmed text has to be a numeric literal.\<close>

definition string_to_number :: "string \<Rightarrow> jsnum" where
  "string_to_number s =
     (let t = trim s
      in if t = [] then Fin 0 0
         else case radix_literal t of
                Some n \<Rightarrow> n
              | None \<Rightarrow> (case scan_decimal t of
                           Some (n, []) \<Rightarrow> n
                         | _ \<Rightarrow> NaN))"

subsection \<open>Conversions of values\<close>

text \<open>What an operation throws; a result is the error or the value.\<close>

datatype js_error = TypeError | SyntaxError

definition bind_res :: "js_error + 'a \<Rightarrow> ('a \<Rightarrow> js_error + 'b) \<Rightarrow> js_error + 'b" where
  "bind_res r f = (case r of Inl e \<Rightarrow> Inl e | Inr x \<Rightarrow> f x)"

lemma bind_res_simps [simp]:
  "bind_res (Inl e) f = Inl e" "bind_res (Inr x) f = f x"
  by (simp_all add: bind_res_def)

text \<open>The results of a list in order, up to the first error.\<close>

fun collect :: "(js_error + 'a) list \<Rightarrow> js_error + 'a list" where
  "collect [] = Inr []"
| "collect (r # rs) = bind_res r (\<lambda>x. bind_res (collect rs) (\<lambda>xs. Inr (x # xs)))"

fun join :: "'a list \<Rightarrow> 'a list list \<Rightarrow> 'a list" where
  "join sep [] = []"
| "join sep [x] = x"
| "join sep (x # y # ys) = x @ sep @ join sep (y # ys)"

fun nullish :: "jsval \<Rightarrow> bool" where
  "nullish JUndefined = True"
| "nullish JNull = True"
| "nullish _ = False"

text \<open>
  \<^verbatim>\<open>ToString\<close>. An array is joined with commas, \<^verbatim>\<open>null\<close> and \<^verbatim>\<open>undefined\<close> elements
  giving the empty text. A plain object is converted by its \<^verbatim>\<open>toString\<close>: the inherited
  one gives \<^verbatim>\<open>[object Object]\<close>; an own property of that name hides it, is no function,
  and the conversion throws a \<^verbatim>\<open>TypeError\<close> (\<^verbatim>\<open>valueOf\<close> gives no primitive either).
\<close>

fun to_string :: "jsval \<Rightarrow> js_error + string" where
  "to_string JUndefined = Inr ''undefined''"
| "to_string JNull = Inr ''null''"
| "to_string (JBool b) = Inr (if b then ''true'' else ''false'')"
| "to_string (JNum n) = Inr (num_to_string n)"
| "to_string (JStr s) = Inr s"
| "to_string (JArr xs) =
     bind_res (collect (map (\<lambda>x. if nullish x then Inr [] else to_string x) xs))
       (\<lambda>ts. Inr (join '','' ts))"
| "to_string (JObj kvs) =
     (if ''toString'' \<in> set (map fst kvs) then Inl TypeError else Inr ''[object Object]'')"

fun is_object :: "jsval \<Rightarrow> bool" where
  "is_object (JArr xs) = True"
| "is_object (JObj kvs) = True"
| "is_object _ = False"

text \<open>
  \<^verbatim>\<open>ToPrimitive\<close>: an array or plain object has no primitive \<^verbatim>\<open>valueOf\<close>, so with either
  hint its primitive is its text.
\<close>

definition to_primitive :: "jsval \<Rightarrow> js_error + jsval" where
  "to_primitive v = (if is_object v then bind_res (to_string v) (\<lambda>s. Inr (JStr s)) else Inr v)"

text \<open>\<^verbatim>\<open>ToNumber\<close>.\<close>

fun to_number :: "jsval \<Rightarrow> js_error + jsnum" where
  "to_number JUndefined = Inr NaN"
| "to_number JNull = Inr (Fin 0 0)"
| "to_number (JBool b) = Inr (if b then Fin 1 0 else Fin 0 0)"
| "to_number (JNum n) = Inr n"
| "to_number (JStr s) = Inr (string_to_number s)"
| "to_number (JArr xs) = bind_res (to_string (JArr xs)) (\<lambda>s. Inr (string_to_number s))"
| "to_number (JObj kvs) = bind_res (to_string (JObj kvs)) (\<lambda>s. Inr (string_to_number s))"

text \<open>\<^verbatim>\<open>parseFloat(v)\<close>: the argument is converted to text first.\<close>

definition parseFloat :: "jsval \<Rightarrow> js_error + jsnum" where
  "parseFloat v = bind_res (to_string v) (\<lambda>s. Inr (parse_float_string s))"

text \<open>\<^verbatim>\<open>ToBoolean\<close>, the test of \<^verbatim>\<open>&&\<close>, \<^verbatim>\<open>||\<close> and \<^verbatim>\<open>!\<close>.\<close>

fun truthy :: "jsval \<Rightarrow> bool" where
  "truthy JUndefined = False"
| "truthy JNull = False"
| "truthy (JBool b) = b"
| "truthy (JNum n) = (n \<noteq> NaN \<and> \<not> num_eq n (Fin 0 0))"
| "truthy (JStr s) = (s \<noteq> [])"
| "truthy (JArr xs) = True"
| "truthy (JObj kvs) = True"

text \<open>
  The loose equality \<^verbatim>\<open>==\<close> on primitives: \<^verbatim>\<open>null\<close> and \<^verbatim>\<open>undefined\<close> equal each
  other and nothing else, two strings are compared as texts, every other pair as numbers.
\<close>

fun loose_prim :: "jsval \<Rightarrow> jsval \<Rightarrow> js_error + bool" where
  "loose_prim (JStr a) (JStr b) = Inr (a = b)"
| "loose_prim x y =
     (if nullish x \<or> nullish y then Inr (nullish x \<and> nullish y)
      else bind_res (to_number x) (\<lambda>a. bind_res (to_number y) (\<lambda>b. Inr (num_eq a b))))"

text \<open>
  The loose equality \<^verbatim>\<open>x == y\<close>. An object against \<^verbatim>\<open>null\<close> or \<^verbatim>\<open>undefined\<close> is unequal
  with no conversion; against another primitive it is converted first, which may throw.
  Two objects are equal when they are the same reference; the trees carry no references,
  and an object of the cache and an argument of a caller are taken to be two objects.
\<close>

definition loose_eq :: "jsval \<Rightarrow> jsval \<Rightarrow> js_error + bool" where
  "loose_eq x y =
     (if is_object x \<and> is_object y then Inr False
      else if (is_object x \<and> nullish y) \<or> (nullish x \<and> is_object y) then Inr False
      else bind_res (to_primitive x) (\<lambda>px. bind_res (to_primitive y) (\<lambda>py. loose_prim px py)))"

text \<open>The strict equality \<^verbatim>\<open>x === y\<close>, with the same reading of objects.\<close>

fun strict_eq :: "jsval \<Rightarrow> jsval \<Rightarrow> bool" where
  "strict_eq JUndefined JUndefined = True"
| "strict_eq JNull JNull = True"
| "strict_eq (JBool a) (JBool b) = (a = b)"
| "strict_eq (JNum a) (JNum b) = num_eq a b"
| "strict_eq (JStr a) (JStr b) = (a = b)"
| "strict_eq _ _ = False"

text \<open>Reading a property of an object: \<^verbatim>\<open>undefined\<close> when it is not there.\<close>

definition get_prop :: "jsobj \<Rightarrow> string \<Rightarrow> jsval" where
  "get_prop ob k = (case map_of ob k of None \<Rightarrow> JUndefined | Some v \<Rightarrow> v)"

section \<open>The local cache and its readers\<close>

text \<open>
  \<^verbatim>\<open>this.allCandidates\<close>: the documents of the last snapshot, each an object holding the
  document's \<^verbatim>\<open>id\<close> and its data, in delivery order.
\<close>

type_synonym cache = "jsobj list"

subsection \<open>\<^verbatim>\<open>Array.prototype.sort\<close> and \<^verbatim>\<open>Array.prototype.filter\<close>\<close>

text \<open>
  The sort is stable, and \<^verbatim>\<open>comparefn(a, b) > 0\<close> puts \<open>a\<close> behind \<open>b\<close>; a result of
  \<^verbatim>\<open>NaN\<close> counts as zero, and a comparison that throws ends the sort. With a comparator
  that is not a consistent order the language leaves the order to the engine; the
  insertion sort below, which inserts from the right, is one such engine. A list of fewer
  than two elements is never compared.
\<close>

fun insert_by :: "('a \<Rightarrow> 'a \<Rightarrow> js_error + jsnum) \<Rightarrow> 'a \<Rightarrow> 'a list \<Rightarrow> js_error + 'a list" where
  "insert_by cmp x [] = Inr [x]"
| "insert_by cmp x (y # ys) =
     bind_res (cmp x y) (\<lambda>v.
       if num_pos v then bind_res (insert_by cmp x ys) (\<lambda>zs. Inr (y # zs))
       else Inr (x # y # ys))"

fun sort_js :: "('a \<Rightarrow> 'a \<Rightarrow> js_error + jsnum) \<Rightarrow> 'a list \<Rightarrow> js_error + 'a list" where
  "sort_js cmp [] = Inr []"
| "sort_js cmp (x # xs) = bind_res (sort_js cmp xs) (insert_by cmp x)"

text \<open>The filter calls the predicate on the elements in order; a call that throws ends it.\<close>

fun filter_js :: "('a \<Rightarrow> js_error + bool) \<Rightarrow> 'a list \<Rightarrow> js_error + 'a list" where
  "filter_js p [] = Inr []"
| "filter_js p (x # xs) =
     bind_res (p x) (\<lambda>b. bind_res (filter_js p xs) (\<lambda>ys. Inr (if b then x # ys else ys)))"

subsection \<open>\<^verbatim>\<open>getRegionData\<close>\<close>

text \<open>
  The comparator \<^verbatim>\<open>(a, b) => b.pontuacao - a.pontuacao\<close>: both operands are converted to
  numbers, the left one first.
\<close>

definition by_score :: "jsobj \<Rightarrow> jsobj \<Rightarrow> js_error + jsnum" where
  "by_score a b =
     bind_res (to_number (get_prop b ''pontuacao'')) (\<lambda>nb.
       bind_res (to_number (get_prop a ''pontuacao'')) (\<lambda>na. Inr (js_sub nb na)))"

record region_data =
  ampla :: "jsobj list"
  pcd :: "jsobj list"
  ppp :: "jsobj list"

definition candidatesForRegion :: "cache \<Rightarrow> jsval \<Rightarrow> js_error + jsobj list" where
  "candidatesForRegion allCandidates region =
     filter_js (\<lambda>c. loose_eq (get_prop c ''region'') region) allCandidates"

definition of_tipo :: "jsobj list \<Rightarrow> string \<Rightarrow> js_error + jsobj list" where
  "of_tipo cs tipo =
     sort_js by_score (filter (\<lambda>c. strict_eq (get_prop c ''tipo'') (JStr tipo)) cs)"

definition getRegionData :: "cache \<Rightarrow> jsval \<Rightarrow> js_error + region_data" where
  "getRegionData allCandidates region =
     bind_res (candidatesForRegion allCandidates region) (\<lambda>cs.
       bind_res (of_tipo cs ''ampla'') (\<lambda>a.
         bind_res (of_tipo cs ''pcd'') (\<lambda>p.
           bind_res (of_tipo cs ''ppp'') (\<lambda>q.
             Inr \<lparr>ampla = a, pcd = p, ppp = q\<rparr>))))"

text \<open>The reading of "the candidate's region equals \<open>r\<close>" that the filter implements.\<close>

definition region_match :: "jsval \<Rightarrow> jsobj \<Rightarrow> bool" where
  "region_match region c = (loose_eq (get_prop c ''region'') region = Inr True)"

text \<open>The example of the specification, as the subscription would deliver it.\<close>

definition entry :: "string \<Rightarrow> string \<Rightarrow> jsnum \<Rightarrow> string \<Rightarrow> string \<Rightarrow> jsobj" where
  "entry i nome pontuacao tipo region =
     [(''id'', JStr i), (''nome'', JStr nome), (''pontuacao'', JNum pontuacao),
      (''tipo'', JStr tipo), (''region'', JStr region),
      (''timestamp'', JStr ''2024-01-01T00:00:00.000Z'')]"

definition alice :: jsobj where
  "alice = entry ''a1'' ''Alice'' (Fin 9 1) ''ampla'' ''north''"

definition bob :: jsobj where
  "bob = entry ''b2'' ''Bob'' (Fin 95 0) ''ampla'' ''north''"

section \<open>JSON text\<close>

subsection \<open>\<^verbatim>\<open>JSON.parse\<close>: tokens\<close>

datatype tok =
    TLBrace | TRBrace | TLBrack | TRBrack | TComma | TColon
  | TStr string
  | TLit jsval

text \<open>A code point as UTF-8 bytes (a lone surrogate of an escape is encoded like any other).\<close>

definition utf8_encode :: "nat \<Rightarrow> string" where
  "utf8_encode n =
     (if n < 0x80 then [char_of n]
      else if n < 0x800 then [char_of (0xC0 + n div 64), char_of (0x80 + n mod 64)]
      else if n < 0x10000 then
        [char_of (0xE0 + n div 4096), char_of (0x80 + n div 64 mod 64), char_of (0x80 + n mod 64)]
      else
        [char_of (0xF0 + n div 262144), char_of (0x80 + n div 4096 mod 64),
         char_of (0x80 + n div 64 mod 64), char_of (0x80 + n mod 64)])"

definition simple_escape :: "char \<Rightarrow> char option" where
  "simple_escape e =
     map_of [(CHR 0x22, CHR 0x22), (CHR 0x5C, CHR 0x5C), (CHR ''/'', CHR ''/''),
             (CHR ''b'', CHR 0x08), (CHR ''f'', CHR 0x0C), (CHR ''n'', CHR 0x0A),
             (CHR ''r'', CHR 0x0D), (CHR ''t'', CHR 0x09)] e"

text \<open>Four hexadecimal digits at the head of the text.\<close>

definition hex4 :: "string \<Rightarrow> nat option" where
  "hex4 s =
     (if length (take 4 s) = 4 \<and> (\<forall>c \<in> set (take 4 s). hex_val c \<noteq> None)
      then Some (nat_of_base 16 (take 4 s)) else None)"

text \<open>
  The escape \<^verbatim>\<open>\uXXXX\<close>, the text being what follows the \<^verbatim>\<open>u\<close>: the code point and the
  number of characters read. A high surrogate directly followed by the escape of a low
  surrogate is the one code point of the pair.
\<close>

definition unicode_escape :: "string \<Rightarrow> (nat \<times> nat) option" where
  "unicode_escape s =
     (case hex4 s of
        None \<Rightarrow> None
      | Some h \<Rightarrow>
          if 0xD800 \<le> h \<and> h < 0xDC00 \<and> take 2 (drop 4 s) = [CHR 0x5C, CHR ''u''] then
            (case hex4 (drop 6 s) of
               Some l \<Rightarrow>
                 if 0xDC00 \<le> l \<and> l < 0xE000
                 then Some (0x10000 + (h - 0xD800) * 1024 + (l - 0xDC00), 10)
                 else Some (h, 4)
             | None \<Rightarrow> Some (h, 4))
          else Some (h, 4))"

text \<open>
  A string literal behind its opening quote: the text it denotes and what follows the
  closing quote.
\<close>

function lex_string :: "string \<Rightarrow> (string \<times> string) option" where
  "lex_string [] = None"
| "lex_string (c # cs) =
     (if c = CHR 0x22 then Some ([], cs)
      else if c = CHR 0x5C then
        (case cs of
           [] \<Rightarrow> None
         | e # r \<Rightarrow>
             if e = CHR ''u'' then
               (case unicode_escape r of
                  None \<Rightarrow> None
                | Some (cp, n) \<Rightarrow>
                    map_option (\<lambda>(s, rest). (utf8_encode cp @ s, rest)) (lex_string (drop n r)))
             else
               (case simple_escape e of
                  None \<Rightarrow> None
                | Some ch \<Rightarrow> map_option (\<lambda>(s, rest). (ch # s, rest)) (lex_string r)))
      else if of_char c < (0x20 :: nat) then None
      else map_option (\<lambda>(s, rest). (c # s, rest)) (lex_string cs))"
  by pat_completeness auto
termination
  by (relation "measure length") auto

text \<open>
  A number literal of the JSON grammar at the head of the text: an optional minus, an
  integer part without a leading zero, an optional fraction and an optional exponent, each
  with at least one digit.
\<close>

definition scan_minus :: "string \<Rightarrow> int \<times> string" where
  "scan_minus s =
     (case s of c # r \<Rightarrow> if c = CHR ''-'' then (- 1, r) else (1, s) | [] \<Rightarrow> (1, s))"

definition int_digits :: "string \<Rightarrow> string" where
  "int_digits s =
     (case s of c # r \<Rightarrow> if c = CHR ''0'' then [c] else takeWhile is_digit s | [] \<Rightarrow> [])"

definition scan_frac :: "string \<Rightarrow> (string \<times> string) option" where
  "scan_frac s =
     (case s of
        c # r \<Rightarrow>
          if c = CHR ''.''
          then (if takeWhile is_digit r = [] then None
                else Some (takeWhile is_digit r, dropWhile is_digit r))
          else Some ([], s)
      | [] \<Rightarrow> Some ([], s))"

definition scan_exp_strict :: "string \<Rightarrow> (int \<times> string) option" where
  "scan_exp_strict s =
     (case s of
        c # r \<Rightarrow>
          if c = CHR ''e'' \<or> c = CHR ''E'' then
            (case scan_sign r of (sg, r') \<Rightarrow>
               if takeWhile is_digit r' = [] then None
               else Some (sg * int (nat_of_base 10 (takeWhile is_digit r')),
                          dropWhile is_digit r'))
          else Some (0, s)
      | [] \<Rightarrow> Some (0, s))"

definition lex_number :: "string \<Rightarrow> (jsnum \<times> string) option" where
  "lex_number s =
     (case scan_minus s of (sg, s1) \<Rightarrow>
        if int_digits s1 = [] then None
        else
          (case scan_frac (drop (length (int_digits s1)) s1) of
             None \<Rightarrow> None
           | Some (ds2, r2) \<Rightarrow>
               (case scan_exp_strict r2 of
                  None \<Rightarrow> None
                | Some (ex, r3) \<Rightarrow>
                    Some (mk_fin (sg * int (nat_of_base 10 (int_digits s1 @ ds2)))
                            (ex - int (length ds2)),
                          r3))))"

lemma scan_sign_shorter: "scan_sign r = (sg, r') \<Longrightarrow> length r' \<le> length r"
  by (auto simp: scan_sign_def split: list.splits if_splits)

lemma scan_minus_shorter: "scan_minus s = (sg, s1) \<Longrightarrow> length s1 \<le> length s"
  by (auto simp: scan_minus_def split: list.splits if_splits)

lemma int_digits_shorter: "length (int_digits s) \<le> length s"
  by (auto simp: int_digits_def length_takeWhile_le split: list.splits)

lemma scan_frac_shorter: "scan_frac s = Some (ds, r) \<Longrightarrow> length r \<le> length s"
  by (auto simp: scan_frac_def split: list.splits if_splits
      intro: le_trans [OF length_dropWhile_le])

lemma scan_exp_strict_shorter:
  assumes "scan_exp_strict s = Some (ex, r)"
  shows "length r \<le> length s"
proof (cases s)
  case Nil
  with assms show ?thesis by (simp add: scan_exp_strict_def)
next
  case (Cons c t)
  show ?thesis
  proof (cases "c = CHR ''e'' \<or> c = CHR ''E''")
    case False
    with assms Cons show ?thesis by (simp add: scan_exp_strict_def)
  next
    case True
    obtain sg r' where sr: "scan_sign t = (sg, r')" by fastforce
    from assms Cons True sr have "r = dropWhile is_digit r'"
      by (auto simp: scan_exp_strict_def split: if_splits)
    then have "length r \<le> length r'" by (simp add: length_dropWhile_le)
    also have "\<dots> \<le> length t" using sr by (rule scan_sign_shorter)
    finally show ?thesis using Cons by simp
  qed
qed

lemma lex_number_shorter:
  assumes "lex_number s = Some (n, rest)"
  shows "length rest < length s"
proof -
  obtain sg s1 where m: "scan_minus s = (sg, s1)" by fastforce
  from assms m have ne: "int_digits s1 \<noteq> []"
    by (auto simp: lex_number_def split: if_splits)
  from assms m ne obtain ds2 r2 where f: "scan_frac (drop (length (int_digits s1)) s1) = Some (ds2, r2)"
    by (auto simp: lex_number_def split: option.splits)
  from assms m ne f obtain ex where e: "scan_exp_strict r2 = Some (ex, rest)"
    by (auto simp: lex_number_def split: option.splits)
  have "length rest \<le> length r2" using e by (rule scan_exp_strict_shorter)
  also have "\<dots> \<le> length (drop (length (int_digits s1)) s1)" using f by (rule scan_frac_shorter)
  also have "\<dots> < length s1"
    using ne int_digits_shorter [of s1] by (cases "int_digits s1") auto
  also have "\<dots> \<le> length s" using m by (rule scan_minus_shorter)
  finally show ?thesis .
qed

lemma lex_string_shorter: "lex_string s = Some (t, rest) \<Longrightarrow> length rest < length s"
proof (induction s arbitrary: t rest rule: lex_string.induct)
  case 1
  then show ?case by simp
next
  case (2 c cs)
  show ?case using "2.prems" "2.IH"
    by (fastforce split: if_splits list.splits option.splits prod.splits)
qed

definition json_ws :: "char \<Rightarrow> bool" where
  "json_ws c = (c \<in> set [CHR 0x09, CHR 0x0A, CHR 0x0D, CHR '' ''])"

definition punct :: "char \<Rightarrow> tok option" where
  "punct c =
     map_of [(CHR ''{'', TLBrace), (CHR ''}'', TRBrace), (CHR ''['', TLBrack),
             (CHR '']'', TRBrack), (CHR '','', TComma), (CHR '':'', TColon)] c"

definition keyword :: "string \<Rightarrow> (jsval \<times> string) option" where
  "keyword s =
     (if take 4 s = ''null'' then Some (JNull, drop 4 s)
      else if take 4 s = ''true'' then Some (JBool True, drop 4 s)
      else if take 5 s = ''false'' then Some (JBool False, drop 5 s)
      else None)"

lemma keyword_shorter: "keyword s = Some (v, rest) \<Longrightarrow> length rest < length s"
  by (cases s) (auto simp: keyword_def split: if_splits)

function lex :: "string \<Rightarrow> tok list option" where
  "lex [] = Some []"
| "lex (c # cs) =
     (if json_ws c then lex cs
      else case punct c of
        Some t \<Rightarrow> map_option (Cons t) (lex cs)
      | None \<Rightarrow>
          if c = CHR 0x22 then
            (case lex_string cs of
               None \<Rightarrow> None
             | Some (s, rest) \<Rightarrow> map_option (Cons (TStr s)) (lex rest))
          else if c = CHR ''-'' \<or> is_digit c then
            (case lex_number (c # cs) of
               None \<Rightarrow> None
             | Some (n, rest) \<Rightarrow> map_option (Cons (TLit (JNum n))) (lex rest))
          else
            (case keyword (c # cs) of
               None \<Rightarrow> None
             | Some (v, rest) \<Rightarrow> map_option (Cons (TLit v)) (lex rest)))"
  by pat_completeness auto
termination
proof (relation "measure length")
  show "wf (measure length)" by simp
next
  fix c cs assume "json_ws c"
  show "(cs, c # cs) \<in> measure length" by simp
next
  fix c cs t
  show "(cs, c # cs) \<in> measure length" by simp
next
  fix c cs x s rest
  assume "lex_string cs = Some x" and "(s, rest) = x"
  then have "length rest < length cs" using lex_string_shorter [of cs s rest] by simp
  then show "(rest, c # cs) \<in> measure length" by simp
next
  fix c cs x n rest
  assume "lex_number (c # cs) = Some x" and "(n, rest) = x"
  then show "(rest, c # cs) \<in> measure length"
    using lex_number_shorter [of "c # cs" n rest] by simp
next
  fix c cs x v rest
  assume "keyword (c # cs) = Some x" and "(v, rest) = x"
  then show "(rest, c # cs) \<in> measure length"
    using keyword_shorter [of "c # cs" v rest] by simp
qed

declare lex.simps [simp del]

subsection \<open>\<^verbatim>\<open>JSON.parse\<close>: the grammar\<close>

text \<open>
  Defining a property on an object: a key that is there already keeps its place and takes
  the new value, so the last of several members with one key wins.
\<close>

fun define_prop :: "jsobj \<Rightarrow> string \<Rightarrow> jsval \<Rightarrow> jsobj" where
  "define_prop [] k v = [(k, v)]"
| "define_prop ((k', v') # ms) k v =
     (if k' = k then (k, v) # ms else (k', v') # define_prop ms k v)"

text \<open>
  The containers that wait for the value being read: an array with the elements read so
  far, or an object with the members read so far and the key of the member being read.
\<close>

datatype frame = FArr "jsval list" | FObj jsobj string

datatype pstate =
    SVal "frame list"
  | SArr0 "frame list"
  | SArrN "jsval list" "frame list"
  | SObj0 "frame list"
  | SKey jsobj "frame list"
  | SColon jsobj string "frame list"
  | SObjN jsobj "frame list"
  | SDone jsval

text \<open>A value is complete: it is the result, or goes into the innermost container.\<close>

fun deliver :: "jsval \<Rightarrow> frame list \<Rightarrow> pstate" where
  "deliver v [] = SDone v"
| "deliver v (FArr es # st) = SArrN (es @ [v]) st"
| "deliver v (FObj ms k # st) = SObjN (define_prop ms k v) st"

fun value_tok :: "frame list \<Rightarrow> tok \<Rightarrow> pstate option" where
  "value_tok st (TLit v) = Some (deliver v st)"
| "value_tok st (TStr s) = Some (deliver (JStr s) st)"
| "value_tok st TLBrack = Some (SArr0 st)"
| "value_tok st TLBrace = Some (SObj0 st)"
| "value_tok st _ = None"

fun step :: "pstate \<Rightarrow> tok \<Rightarrow> pstate option" where
  "step (SVal st) t = value_tok st t"
| "step (SArr0 st) t =
     (if t = TRBrack then Some (deliver (JArr []) st) else value_tok (FArr [] # st) t)"
| "step (SArrN es st) t =
     (if t = TComma then Some (SVal (FArr es # st))
      else if t = TRBrack then Some (deliver (JArr es) st)
      else None)"
| "step (SObj0 st) t =
     (case t of
        TRBrace \<Rightarrow> Some (deliver (JObj []) st)
      | TStr k \<Rightarrow> Some (SColon [] k st)
      | _ \<Rightarrow> None)"
| "step (SKey ms st) t = (case t of TStr k \<Rightarrow> Some (SColon ms k st) | _ \<Rightarrow> None)"
| "step (SColon ms k st) t = (if t = TColon then Some (SVal (FObj ms k # st)) else None)"
| "step (SObjN ms st) t =
     (if t = TComma then Some (SKey ms st)
      else if t = TRBrace then Some (deliver (JObj ms) st)
      else None)"
| "step (SDone v) t = None"

fun run :: "pstate \<Rightarrow> tok list \<Rightarrow> pstate option" where
  "run s [] = Some s"
| "run s (t # ts) = (case step s t of None \<Rightarrow> None | Some s' \<Rightarrow> run s' ts)"

text \<open>\<^verbatim>\<open>JSON.parse(text)\<close>: the value, or \<open>None\<close> where it throws a \<^verbatim>\<open>SyntaxError\<close>.\<close>

definition JSON_parse :: "string \<Rightarrow> jsval option" where
  "JSON_parse s =
     (case lex s of
        None \<Rightarrow> None
      | Some ts \<Rightarrow> (case run (SVal []) ts of Some (SDone v) \<Rightarrow> Some v | _ \<Rightarrow> None))"

section \<open>The facade and the remote store\<close>

text \<open>
  Of the fields of \<^verbatim>\<open>FirebaseSESAPDatabase\<close> the operations read two: the readiness flag
  and the local cache. The handles \<^verbatim>\<open>app\<close>, \<^verbatim>\<open>auth\<close>, \<^verbatim>\<open>db\<close> and the two identifiers fix
  the one remote collection \<^verbatim>\<open>artifacts/<appId>/users/<userId>/candidates\<close> that every
  request addresses; the world below holds that collection.
\<close>

record facade =
  isAuthReady :: bool
  allCandidates :: cache

text \<open>The requests sent to the remote store, in the order they are issued.\<close>

datatype event = Query | Delete string | Add jsobj

text \<open>
  What the SDK does with a request: it resolves, its promise rejects (network, permission,
  quota), or the call throws before anything is sent (a value the store refuses).
\<close>

datatype outcome = Resolves | Rejects | Throws

text \<open>
  The world outside the facade: the documents of the collection (identifier and data; the
  order carries no meaning), the requests issued so far, the outcomes of the requests to
  come (every request after the listed ones resolves), the identifiers the store will
  assign, and the clock behind \<^verbatim>\<open>new Date().toISOString()\<close>, read by position.
\<close>

record world =
  remote :: "(string \<times> jsobj) list"
  trace :: "event list"
  outcomes :: "outcome list"
  auto_id :: "nat \<Rightarrow> string"
  ids_used :: nat
  date_at :: "nat \<Rightarrow> string"
  dates_read :: nat

definition next_outcome :: "world \<Rightarrow> outcome \<times> world" where
  "next_outcome w =
     (case outcomes w of [] \<Rightarrow> (Resolves, w) | x # xs \<Rightarrow> (x, w\<lparr>outcomes := xs\<rparr>))"

text \<open>\<^verbatim>\<open>new Date().toISOString()\<close>.\<close>

definition new_date :: "world \<Rightarrow> string \<times> world" where
  "new_date w = (date_at w (dates_read w), w\<lparr>dates_read := Suc (dates_read w)\<rparr>)"

text \<open>\<^verbatim>\<open>addDoc(ref, data)\<close>: a call that throws sends nothing.\<close>

definition addDoc :: "world \<Rightarrow> jsobj \<Rightarrow> outcome \<times> world" where
  "addDoc w dat =
     (case next_outcome w of
        (Throws, w1) \<Rightarrow> (Throws, w1)
      | (Rejects, w1) \<Rightarrow> (Rejects, w1\<lparr>trace := trace w1 @ [Add dat]\<rparr>)
      | (Resolves, w1) \<Rightarrow>
          (Resolves, w1\<lparr>trace := trace w1 @ [Add dat],
                         remote := remote w1 @ [(auto_id w1 (ids_used w1), dat)],
                         ids_used := Suc (ids_used w1)\<rparr>))"

text \<open>\<^verbatim>\<open>getDocs(query(ref))\<close>: the documents of the collection when it resolves.\<close>

definition getDocs :: "world \<Rightarrow> (string \<times> jsobj) list option \<times> world" where
  "getDocs w =
     (case next_outcome w of
        (Throws, w1) \<Rightarrow> (None, w1)
      | (Rejects, w1) \<Rightarrow> (None, w1\<lparr>trace := trace w1 @ [Query]\<rparr>)
      | (Resolves, w1) \<Rightarrow> (Some (remote w1), w1\<lparr>trace := trace w1 @ [Query]\<rparr>))"

text \<open>\<^verbatim>\<open>deleteDoc(doc.ref)\<close>.\<close>

definition deleteDoc :: "world \<Rightarrow> string \<Rightarrow> outcome \<times> world" where
  "deleteDoc w i =
     (case next_outcome w of
        (Throws, w1) \<Rightarrow> (Throws, w1)
      | (Rejects, w1) \<Rightarrow> (Rejects, w1\<lparr>trace := trace w1 @ [Delete i]\<rparr>)
      | (Resolves, w1) \<Rightarrow>
          (Resolves, w1\<lparr>trace := trace w1 @ [Delete i],
                         remote := filter (\<lambda>d. fst d \<noteq> i) (remote w1)\<rparr>))"

subsection \<open>The subscription callback\<close>

text \<open>\<^verbatim>\<open>{ id: doc.id, ...doc.data() }\<close>: the identifier first, the data spread over it.\<close>

definition snapshot_entry :: "string \<times> jsobj \<Rightarrow> jsobj" where
  "snapshot_entry d = foldl (\<lambda>ob (k, v). define_prop ob k v) [(''id'', JStr (fst d))] (snd d)"

definition on_snapshot :: "facade \<Rightarrow> (string \<times> jsobj) list \<Rightarrow> facade" where
  "on_snapshot f snapshot = f\<lparr>allCandidates := map snapshot_entry snapshot\<rparr>"

subsection \<open>\<^verbatim>\<open>addCandidate\<close>\<close>

text \<open>
  \<^verbatim>\<open>{ ...candidate, region: region, timestamp: new Date().toISOString() }\<close>, the candidate
  being an object.
\<close>

definition addCandidate :: "facade \<Rightarrow> world \<Rightarrow> jsval \<Rightarrow> jsobj \<Rightarrow> bool \<times> facade \<times> world" where
  "addCandidate f w region candidate =
     (if \<not> isAuthReady f then (False, f, w)
      else
        (case new_date w of (now, w1) \<Rightarrow>
           (case addDoc w1 (define_prop (define_prop candidate ''region'' region)
                                        ''timestamp'' (JStr now)) of
              (Resolves, w2) \<Rightarrow> (True, f, w2)
            | (_, w2) \<Rightarrow> (False, f, w2))))"

subsection \<open>\<^verbatim>\<open>clearAll\<close>\<close>

text \<open>
  The loop over the snapshot issues one deletion per document; \<open>ok\<close> records that every
  promise so far resolves, which is what \<^verbatim>\<open>Promise.all\<close> reports. A deletion that throws
  ends the loop in the \<^verbatim>\<open>catch\<close>.
\<close>

fun delete_all :: "string list \<Rightarrow> world \<Rightarrow> bool \<Rightarrow> bool \<times> world" where
  "delete_all [] w ok = (ok, w)"
| "delete_all (i # is) w ok =
     (case deleteDoc w i of
        (Throws, w1) \<Rightarrow> (False, w1)
      | (Rejects, w1) \<Rightarrow> delete_all is w1 False
      | (Resolves, w1) \<Rightarrow> delete_all is w1 ok)"

definition clearAll :: "facade \<Rightarrow> world \<Rightarrow> bool \<times> facade \<times> world" where
  "clearAll f w =
     (if \<not> isAuthReady f then (False, f, w)
      else
        (case getDocs w of
           (None, w1) \<Rightarrow> (False, f, w1)
         | (Some querySnapshot, w1) \<Rightarrow>
             (case delete_all (map fst querySnapshot) w1 True of
                (ok, w2) \<Rightarrow> (ok, f, w2))))"

subsection \<open>\<^verbatim>\<open>restoreData\<close>\<close>

text \<open>
  Reading a property of a parsed value: \<^verbatim>\<open>null\<close> throws, an object gives the property, and
  the other values of a parsed text (numbers, strings, booleans, arrays) have none of the
  five properties read here.
\<close>

fun member_of :: "jsval \<Rightarrow> string \<Rightarrow> js_error + jsval" where
  "member_of JNull k = Inl TypeError"
| "member_of JUndefined k = Inl TypeError"
| "member_of (JObj ms) k = Inr (get_prop ms k)"
| "member_of _ k = Inr JUndefined"

text \<open>
  The test \<^verbatim>\<open>candidate.nome && candidate.pontuacao !== undefined && candidate.tipo &&
  candidate.region\<close> on the members read.
\<close>

definition required_fields :: "jsobj \<Rightarrow> bool" where
  "required_fields c =
     (truthy (get_prop c ''nome'') \<and> get_prop c ''pontuacao'' \<noteq> JUndefined
      \<and> truthy (get_prop c ''tipo'') \<and> truthy (get_prop c ''region''))"

text \<open>The members of any value that does not throw, as an object: none for a non-object.\<close>

fun members :: "jsval \<Rightarrow> jsobj" where
  "members (JObj ms) = ms"
| "members _ = []"

text \<open>
  The object literal passed to \<^verbatim>\<open>addDoc\<close>, \<open>score\<close> being what \<^verbatim>\<open>parseFloat\<close> returned
  and \<open>now\<close> the clock's text.
\<close>

definition restored_record :: "jsobj \<Rightarrow> jsnum \<Rightarrow> string \<Rightarrow> jsobj" where
  "restored_record c score now =
     [(''nome'', get_prop c ''nome''),
      (''pontuacao'', JNum score),
      (''tipo'', get_prop c ''tipo''),
      (''region'', get_prop c ''region''),
      (''timestamp'', if truthy (get_prop c ''timestamp'') then get_prop c ''timestamp''
                      else JStr now)]"

text \<open>
  The loop over the parsed array. Reading a property of \<^verbatim>\<open>null\<close> throws, and so may
  \<^verbatim>\<open>parseFloat\<close> and \<^verbatim>\<open>addDoc\<close>: the \<^verbatim>\<open>catch\<close> then returns failure, the writes issued
  before staying issued. The properties of the literal are evaluated in order, so the
  clock is read after \<^verbatim>\<open>parseFloat\<close> has returned. \<open>ok\<close> records that every promise so
  far resolves, which is what \<^verbatim>\<open>Promise.all\<close> reports.
\<close>

fun restore_loop :: "jsval list \<Rightarrow> world \<Rightarrow> bool \<Rightarrow> bool \<times> world" where
  "restore_loop [] w ok = (ok, w)"
| "restore_loop (candidate # rest) w ok =
     (case member_of candidate ''nome'' of
        Inl err \<Rightarrow> (False, w)
      | Inr nome \<Rightarrow>
          if required_fields (members candidate) then
            (case parseFloat (get_prop (members candidate) ''pontuacao'') of
               Inl err \<Rightarrow> (False, w)
             | Inr score \<Rightarrow>
                 (case (if truthy (get_prop (members candidate) ''timestamp'') then ([], w)
                        else new_date w) of
                    (now, w1) \<Rightarrow>
                      (case addDoc w1 (restored_record (members candidate) score now) of
                         (Throws, w2) \<Rightarrow> (False, w2)
                       | (Rejects, w2) \<Rightarrow> restore_loop rest w2 False
                       | (Resolves, w2) \<Rightarrow> restore_loop rest w2 ok)))
          else restore_loop rest w ok)"

fun is_array :: "jsval \<Rightarrow> bool" where
  "is_array (JArr xs) = True"
| "is_array _ = False"

fun elements :: "jsval \<Rightarrow> jsval list" where
  "elements (JArr xs) = xs"
| "elements _ = []"

definition restoreData :: "facade \<Rightarrow> world \<Rightarrow> string \<Rightarrow> bool \<times> facade \<times> world" where
  "restoreData f w jsonData =
     (if \<not> isAuthReady f then (False, f, w)
      else
        (case JSON_parse jsonData of
           None \<Rightarrow> (False, f, w)
         | Some dataToRestore \<Rightarrow>
             if \<not> truthy dataToRestore \<or> \<not> is_array dataToRestore then (False, f, w)
             else
               (case clearAll f w of (cleared, f1, w1) \<Rightarrow>
                  (case restore_loop (elements dataToRestore) w1 True of
                     (ok, w2) \<Rightarrow> (ok, f1, w2)))))"

subsection \<open>Sample states\<close>

text \<open>
  A service that resolves every request, holding the given documents, with identifiers
  \<^verbatim>\<open>doc0\<close>, \<^verbatim>\<open>doc1\<close>, \<dots> to assign and a clock that reads \<^verbatim>\<open>T0\<close>, \<^verbatim>\<open>T1\<close>, \<dots>
\<close>

definition service :: "(string \<times> jsobj) list \<Rightarrow> world" where
  "service ds =
     \<lparr>remote = ds, trace = [], outcomes = [],
      auto_id = (\<lambda>n. ''doc'' @ digits n), ids_used = 0,
      date_at = (\<lambda>n. ''T'' @ digits n), dates_read = 0\<rparr>"

definition ready :: "cache \<Rightarrow> facade" where
  "ready cs = \<lparr>isAuthReady = True, allCandidates = cs\<rparr>"

definition not_ready :: "cache \<Rightarrow> facade" where
  "not_ready cs = \<lparr>isAuthReady = False, allCandidates = cs\<rparr>"

text \<open>
  A backup of two records, the first without a score, the second with the score as a
  text; and the two records as \<^verbatim>\<open>JSON.parse\<close> gives them.
\<close>

definition sample_backup :: string where
  "sample_backup =
     ''[{\"nome\": \"Ana\", \"tipo\": \"pcd\", \"region\": \"north\"}, '' @
     ''{\"nome\": \"Bob\", \"pontuacao\": \"90\", \"tipo\": \"ampla\", \"region\": \"north\"}]''"

definition no_score :: jsobj where
  "no_score = [(''nome'', JStr ''Ana''), (''tipo'', JStr ''pcd''), (''region'', JStr ''north'')]"

definition text_score :: jsobj where
  "text_score =
     [(''nome'', JStr ''Bob''), (''pontuacao'', JStr ''90''), (''tipo'', JStr ''ampla''),
      (''region'', JStr ''north'')]"

text \<open>
  What the specification says of the writes. An element of the payload is accepted when
  it has a name, a category and a region that are truthy and a score that is not
  \<^verbatim>\<open>undefined\<close>. The record of an accepted element has its name, its category and its
  region, for score the number \<^verbatim>\<open>parseFloat\<close> reads from its score field, and a timestamp,
  and nothing else.
\<close>

definition accepted :: "jsval \<Rightarrow> bool" where
  "accepted c =
     (case c of
        JObj ms \<Rightarrow> truthy (get_prop ms ''nome'') \<and> get_prop ms ''pontuacao'' \<noteq> JUndefined
                  \<and> truthy (get_prop ms ''tipo'') \<and> truthy (get_prop ms ''region'')
      | _ \<Rightarrow> False)"

definition record_of :: "jsval \<Rightarrow> jsobj \<Rightarrow> bool" where
  "record_of c d =
     (case parseFloat (get_prop (members c) ''pontuacao'') of
        Inl e \<Rightarrow> False
      | Inr n \<Rightarrow>
          d = [(''nome'', get_prop (members c) ''nome''),
               (''pontuacao'', JNum n),
               (''tipo'', get_prop (members c) ''tipo''),
               (''region'', get_prop (members c) ''region''),
               (''timestamp'', get_prop d ''timestamp'')])"

text \<open>The records of the write requests among some requests, in order.\<close>

definition adds_of :: "event list \<Rightarrow> jsobj list" where
  "adds_of evs = concat (map (\<lambda>ev. case ev of Add d \<Rightarrow> [d] | _ \<Rightarrow> []) evs)"


text \<open>A backup of one record whose timestamp is there and is the empty text.\<close>

definition empty_stamp_backup :: string where
  "empty_stamp_backup =
     ''[{\"nome\": \"Bob\", \"pontuacao\": 90, \"tipo\": \"ampla\", \"region\": \"north\", '' @
     ''\"timestamp\": \"\"}]''"

section \<open>The exports\<close>

subsection \<open>\<^verbatim>\<open>exportCSV\<close>\<close>

text \<open>
  The header of the source, \<^verbatim>\<open>Regi\<close>\<open>\<atilde>\<close>\<^verbatim>\<open>o,Nome,Pontua\<close>\<open>\<ccedilla>\<atilde>\<close>\<^verbatim>\<open>o,Tipo,Data/Hora\<close> and a line feed,
  as UTF-8 bytes.
\<close>

definition csv_header :: string where
  "csv_header =
     ''Regi'' @ [CHR 0xC3, CHR 0xA3] @ ''o,Nome,Pontua'' @ [CHR 0xC3, CHR 0xA7, CHR 0xC3, CHR 0xA3]
     @ ''o,Tipo,Data/Hora'' @ [CHR 0x0A]"

text \<open>
  \<^verbatim>\<open>candidato.tipo === 'ampla' ? 'Ampla Concorr\<close>\<open>\<ecircumflex>\<close>\<^verbatim>\<open>ncia' : candidato.tipo === 'pcd' ? 'PCD' : 'PPP'\<close>
\<close>

definition tipoName :: "jsval \<Rightarrow> string" where
  "tipoName tipo =
     (if strict_eq tipo (JStr ''ampla'') then ''Ampla Concorr'' @ [CHR 0xC3, CHR 0xAA] @ ''ncia''
      else if strict_eq tipo (JStr ''pcd'') then ''PCD''
      else ''PPP'')"

text \<open>
  The template literal of one line; each \<^verbatim>\<open>${...}\<close> is the text of the value, converted
  from left to right, and a conversion that throws ends the export.
\<close>

definition csv_line :: "jsobj \<Rightarrow> js_error + string" where
  "csv_line candidato =
     bind_res (to_string (get_prop candidato ''region'')) (\<lambda>region.
       bind_res (to_string (get_prop candidato ''nome'')) (\<lambda>nome.
         bind_res (to_string (get_prop candidato ''pontuacao'')) (\<lambda>pontuacao.
           bind_res (to_string (get_prop candidato ''timestamp'')) (\<lambda>timestamp.
             Inr (region @ '','' @ [CHR 0x22] @ nome @ [CHR 0x22] @ '','' @ pontuacao @ '',''
                  @ tipoName (get_prop candidato ''tipo'') @ '','' @ timestamp
                  @ [CHR 0x0A])))))"

fun csv_lines :: "string \<Rightarrow> cache \<Rightarrow> js_error + string" where
  "csv_lines csv [] = Inr csv"
| "csv_lines csv (candidato # rest) =
     bind_res (csv_line candidato) (\<lambda>line. csv_lines (csv @ line) rest)"

definition exportCSV :: "cache \<Rightarrow> js_error + string" where
  "exportCSV cs = csv_lines csv_header cs"

text \<open>The four values of a candidate that a line converts to text.\<close>

definition line_values :: "jsobj \<Rightarrow> jsval list" where
  "line_values c =
     [get_prop c ''region'', get_prop c ''nome'', get_prop c ''pontuacao'',
      get_prop c ''timestamp'']"

text \<open>The header line as the specification words it.\<close>

definition spec_header :: string where
  "spec_header = ''Region,Name,Score,Category,Timestamp''"

text \<open>A cached candidate whose name holds a double quote and whose region holds a comma.\<close>

definition awkward :: jsobj where
  "awkward =
     [(''id'', JStr ''x1''), (''nome'', JStr ''Ana \"Nana\" Lima''),
      (''pontuacao'', JNum (Fin 875 (- 1))), (''tipo'', JStr ''pcd''),
      (''region'', JStr ''north, east''), (''timestamp'', JStr ''T0'')]"

subsection \<open>\<^verbatim>\<open>JSON.stringify\<close>\<close>

definition hex_digit :: "nat \<Rightarrow> char" where
  "hex_digit d = ''0123456789abcdef'' ! d"

text \<open>\<^verbatim>\<open>QuoteJSONString\<close>, one character at a time.\<close>

definition quote_char :: "char \<Rightarrow> string" where
  "quote_char c =
     (if c = CHR 0x22 then [CHR 0x5C, CHR 0x22]
      else if c = CHR 0x5C then [CHR 0x5C, CHR 0x5C]
      else if c = CHR 0x08 then [CHR 0x5C, CHR ''b'']
      else if c = CHR 0x09 then [CHR 0x5C, CHR ''t'']
      else if c = CHR 0x0A then [CHR 0x5C, CHR ''n'']
      else if c = CHR 0x0C then [CHR 0x5C, CHR ''f'']
      else if c = CHR 0x0D then [CHR 0x5C, CHR ''r'']
      else if of_char c < (0x20 :: nat) then
        [CHR 0x5C, CHR ''u'', CHR ''0'', CHR ''0'',
         hex_digit (of_char c div 16), hex_digit (of_char c mod 16)]
      else [c])"

definition quote :: "string \<Rightarrow> string" where
  "quote s = [CHR 0x22] @ concat (map quote_char s) @ [CHR 0x22]"

fun finite_num :: "jsnum \<Rightarrow> bool" where
  "finite_num (Fin m e) = True"
| "finite_num _ = False"

text \<open>
  \<^verbatim>\<open>SerializeJSONProperty\<close> with the gap \<open>gap\<close> at the indentation \<open>ind\<close>: \<open>None\<close> is
  \<^verbatim>\<open>undefined\<close>. A number that is not finite is \<^verbatim>\<open>null\<close>; an \<^verbatim>\<open>undefined\<close> element of an array
  is \<^verbatim>\<open>null\<close>, an \<^verbatim>\<open>undefined\<close> member of an object is left out.
\<close>

fun ser :: "string \<Rightarrow> string \<Rightarrow> jsval \<Rightarrow> string option" where
  "ser gap ind JUndefined = None"
| "ser gap ind JNull = Some ''null''"
| "ser gap ind (JBool b) = Some (if b then ''true'' else ''false'')"
| "ser gap ind (JNum n) = Some (if finite_num n then num_to_string n else ''null'')"
| "ser gap ind (JStr s) = Some (quote s)"
| "ser gap ind (JArr xs) =
     (let parts = map (\<lambda>x. case ser gap (ind @ gap) x of None \<Rightarrow> ''null'' | Some s \<Rightarrow> s) xs
      in Some (if parts = [] then ''[]''
               else if gap = [] then ''['' @ join '','' parts @ '']''
               else ''['' @ [CHR 0x0A] @ ind @ gap
                    @ join ('','' @ [CHR 0x0A] @ ind @ gap) parts
                    @ [CHR 0x0A] @ ind @ '']''))"
| "ser gap ind (JObj ms) =
     (let parts = concat (map (\<lambda>(k, v). case ser gap (ind @ gap) v of
                                  None \<Rightarrow> []
                                | Some s \<Rightarrow> [quote k @ '':'' @ (if gap = [] then [] else '' '') @ s])
                              ms)
      in Some (if parts = [] then ''{}''
               else if gap = [] then ''{'' @ join '','' parts @ ''}''
               else ''{'' @ [CHR 0x0A] @ ind @ gap
                    @ join ('','' @ [CHR 0x0A] @ ind @ gap) parts
                    @ [CHR 0x0A] @ ind @ ''}''))"

text \<open>\<^verbatim>\<open>JSON.stringify(value, null, space)\<close>, the gap being the text of \<open>space\<close> blanks.\<close>

definition JSON_stringify :: "jsval \<Rightarrow> nat \<Rightarrow> string option" where
  "JSON_stringify v space = ser (replicate (min space 10) (CHR '' '')) [] v"

text \<open>The cache as the array of objects it is.\<close>

definition cache_value :: "cache \<Rightarrow> jsval" where
  "cache_value cs = JArr (map JObj cs)"

subsection \<open>\<^verbatim>\<open>exportJSON\<close>\<close>

text \<open>
  \<^verbatim>\<open>JSON.stringify(this.allCandidates, null, 2)\<close>. The serialisation of an array is always a
  text, never \<^verbatim>\<open>undefined\<close>.
\<close>

definition exportJSON :: "cache \<Rightarrow> string" where
  "exportJSON cs = (case JSON_stringify (cache_value cs) 2 of Some s \<Rightarrow> s | None \<Rightarrow> ''undefined'')"

subsection \<open>Values that a JSON text holds\<close>

text \<open>
  The values \<^verbatim>\<open>JSON.parse\<close> can give back: no \<^verbatim>\<open>undefined\<close>, every number finite (and in
  the canonical form of the model), the keys of every object distinct.
\<close>

fun json_safe :: "jsval \<Rightarrow> bool" where
  "json_safe JUndefined = False"
| "json_safe JNull = True"
| "json_safe (JBool b) = True"
| "json_safe (JNum n) = (finite_num n \<and> canon n)"
| "json_safe (JStr s) = True"
| "json_safe (JArr xs) = list_all json_safe xs"
| "json_safe (JObj ms) = (distinct (map fst ms) \<and> list_all (\<lambda>m. json_safe (snd m)) ms)"

text \<open>The tokens of the text of such a value.\<close>

fun toks :: "jsval \<Rightarrow> tok list" where
  "toks (JStr s) = [TStr s]"
| "toks (JArr xs) = TLBrack # join [TComma] (map toks xs) @ [TRBrack]"
| "toks (JObj ms) =
     TLBrace # join [TComma] (map (\<lambda>m. TStr (fst m) # TColon # toks (snd m)) ms) @ [TRBrace]"
| "toks v = [TLit v]"

text \<open>What may follow a value in a JSON text: nothing, or a character that no number contains.\<close>

definition delim :: "string \<Rightarrow> bool" where
  "delim rest = (case rest of [] \<Rightarrow> True | c # r \<Rightarrow> c \<in> set [CHR '','', CHR '']'', CHR ''}'', CHR 0x0A])"

text \<open>The text goes on with neither a digit nor a decimal point.\<close>

definition stops :: "string \<Rightarrow> bool" where
  "stops s = (case s of [] \<Rightarrow> True | c # r \<Rightarrow> \<not> is_digit c \<and> c \<noteq> CHR ''.'')"

text \<open>
  A text \<open>t\<close> is read as the tokens \<open>ts\<close> whatever the delimited text behind it; and a
  token list \<open>ts\<close> is taken as the value \<open>v\<close> in whatever containers are open.
\<close>

definition lexes :: "string \<Rightarrow> tok list \<Rightarrow> bool" where
  "lexes t ts = (\<forall>rest. delim rest \<longrightarrow> lex (t @ rest) = map_option (\<lambda>us. ts @ us) (lex rest))"

definition parses :: "tok list \<Rightarrow> jsval \<Rightarrow> bool" where
  "parses ts v = (\<forall>st us. run (SVal st) (ts @ us) = run (deliver v st) us)"

definition blank :: "string \<Rightarrow> bool" where
  "blank s = (\<forall>c \<in> set s. json_ws c)"

text \<open>
  A backup whose one record has a score text that is no number, and the cache after
  restoring it into an empty collection and receiving the snapshot.
\<close>

definition nan_backup :: string where
  "nan_backup =
     ''[{\"nome\": \"Bob\", \"pontuacao\": \"abc\", \"tipo\": \"ampla\", \"region\": \"north\"}]''"

definition nan_cache :: cache where
  "nan_cache =
     allCandidates (on_snapshot (ready [])
       (remote (snd (snd (restoreData (ready []) (service []) nan_backup)))))"

section \<open>The sort and the filter\<close>

lemma bind_res_Inr: "bind_res r f = Inr y \<Longrightarrow> \<exists>x. r = Inr x \<and> f x = Inr y"
  by (cases r) simp_all

lemma mset_insert_by: "insert_by cmp x ys = Inr zs \<Longrightarrow> mset zs = add_mset x (mset ys)"
proof (induction ys arbitrary: zs)
  case Nil
  then show ?case by auto
next
  case (Cons y ys)
  from Cons.prems obtain v where v: "cmp x y = Inr v"
    and r: "(if num_pos v then bind_res (insert_by cmp x ys) (\<lambda>zs. Inr (y # zs))
             else Inr (x # y # ys)) = Inr zs"
    by (auto dest: bind_res_Inr)
  show ?case
  proof (cases "num_pos v")
    case True
    with r obtain zs' where "insert_by cmp x ys = Inr zs'" "zs = y # zs'"
      by (auto dest: bind_res_Inr)
    with Cons.IH [of zs'] show ?thesis by simp
  next
    case False
    with r show ?thesis by auto
  qed
qed

lemma mset_sort_js: "sort_js cmp xs = Inr ys \<Longrightarrow> mset ys = mset xs"
proof (induction xs arbitrary: ys)
  case Nil
  then show ?case by simp
next
  case (Cons x xs)
  from Cons.prems obtain s where s: "sort_js cmp xs = Inr s" "insert_by cmp x s = Inr ys"
    by (auto dest: bind_res_Inr)
  from mset_insert_by [OF s(2)] Cons.IH [OF s(1)] show ?case by simp
qed

lemma set_sort_js: "sort_js cmp xs = Inr ys \<Longrightarrow> set ys = set xs"
  by (drule mset_sort_js) (metis set_mset_mset)

lemma filter_js_filter: "filter_js p xs = Inr ys \<Longrightarrow> ys = filter (\<lambda>x. p x = Inr True) xs"
proof (induction xs arbitrary: ys)
  case Nil
  then show ?case by simp
next
  case (Cons x xs)
  from Cons.prems obtain b zs where b: "p x = Inr b" "filter_js p xs = Inr zs"
    "ys = (if b then x # zs else zs)"
    by (auto dest!: bind_res_Inr)
  with Cons.IH [OF b(2)] show ?case by simp
qed

section \<open>\<^verbatim>\<open>getRegionData\<close>\<close>

lemma strict_eq_JStr: "strict_eq v (JStr t) = (v = JStr t)"
  by (cases v) auto

lemma set_of_tipo:
  "of_tipo cs tipo = Inr ys \<Longrightarrow> set ys = {c \<in> set cs. get_prop c ''tipo'' = JStr tipo}"
  unfolding of_tipo_def by (drule set_sort_js) (auto simp: strict_eq_JStr)

lemma getRegionData_lists:
  assumes "getRegionData cands r = Inr rd"
  shows "set (ampla rd) = {c \<in> set cands. region_match r c \<and> get_prop c ''tipo'' = JStr ''ampla''}"
    and "set (pcd rd) = {c \<in> set cands. region_match r c \<and> get_prop c ''tipo'' = JStr ''pcd''}"
    and "set (ppp rd) = {c \<in> set cands. region_match r c \<and> get_prop c ''tipo'' = JStr ''ppp''}"
proof -
  from assms obtain cs a p q where
    cs: "candidatesForRegion cands r = Inr cs"
    and a: "of_tipo cs ''ampla'' = Inr a" and p: "of_tipo cs ''pcd'' = Inr p"
    and q: "of_tipo cs ''ppp'' = Inr q"
    and rd: "rd = \<lparr>ampla = a, pcd = p, ppp = q\<rparr>"
    unfolding getRegionData_def by (auto dest!: bind_res_Inr)
  have f: "set cs = {c \<in> set cands. region_match r c}"
    using filter_js_filter [OF cs [unfolded candidatesForRegion_def]]
    by (auto simp: region_match_def)
  show "set (ampla rd) = {c \<in> set cands. region_match r c \<and> get_prop c ''tipo'' = JStr ''ampla''}"
    using set_of_tipo [OF a] f rd by auto
  show "set (pcd rd) = {c \<in> set cands. region_match r c \<and> get_prop c ''tipo'' = JStr ''pcd''}"
    using set_of_tipo [OF p] f rd by auto
  show "set (ppp rd) = {c \<in> set cands. region_match r c \<and> get_prop c ''tipo'' = JStr ''ppp''}"
    using set_of_tipo [OF q] f rd by auto
qed

section \<open>When \<open>getRegionData\<close> returns\<close>

lemma to_number_prim: "\<not> is_object v \<Longrightarrow> \<exists>n. to_number v = Inr n"
  by (cases v) simp_all

lemma to_number_returns: "to_string v = Inr t \<Longrightarrow> \<exists>n. to_number v = Inr n"
  by (cases v) (simp_all del: to_string.simps)

lemma to_primitive_returns:
  "to_string v = Inr t \<Longrightarrow> \<exists>p. to_primitive v = Inr p \<and> \<not> is_object p"
  by (simp add: to_primitive_def del: to_string.simps)

lemma loose_prim_returns:
  assumes "\<not> is_object x" and "\<not> is_object y"
  shows "\<exists>b. loose_prim x y = Inr b"
proof -
  from to_number_prim [OF assms(1)] to_number_prim [OF assms(2)]
  obtain a b where "to_number x = Inr a" "to_number y = Inr b" by blast
  with assms show ?thesis by (cases x; cases y) auto
qed

lemma loose_eq_returns:
  assumes "to_string x = Inr s" and "to_string y = Inr t"
  shows "\<exists>b. loose_eq x y = Inr b"
proof -
  from to_primitive_returns [OF assms(1)] to_primitive_returns [OF assms(2)]
  obtain px py where p: "to_primitive x = Inr px" "\<not> is_object px"
    "to_primitive y = Inr py" "\<not> is_object py"
    by blast
  from loose_prim_returns [OF p(2,4)] p(1,3) show ?thesis
    by (auto simp: loose_eq_def)
qed

lemma by_score_returns:
  assumes "to_string (get_prop a ''pontuacao'') = Inr s"
    and "to_string (get_prop b ''pontuacao'') = Inr t"
  shows "\<exists>v. by_score a b = Inr v"
proof -
  from to_number_returns [OF assms(1)] to_number_returns [OF assms(2)]
  obtain na nb where "to_number (get_prop a ''pontuacao'') = Inr na"
    "to_number (get_prop b ''pontuacao'') = Inr nb"
    by blast
  then show ?thesis by (simp add: by_score_def)
qed

lemma insert_by_returns:
  "\<forall>y \<in> set ys. \<exists>v. cmp x y = Inr v \<Longrightarrow> \<exists>zs. insert_by cmp x ys = Inr zs"
proof (induction ys)
  case Nil
  then show ?case by simp
next
  case (Cons y ys)
  from Cons.prems obtain v where v: "cmp x y = Inr v" by auto
  from Cons.prems Cons.IH obtain zs where "insert_by cmp x ys = Inr zs" by auto
  with v show ?case by simp
qed

lemma sort_js_returns:
  "\<forall>x \<in> set xs. \<forall>y \<in> set xs. \<exists>v. cmp x y = Inr v \<Longrightarrow> \<exists>ys. sort_js cmp xs = Inr ys"
proof (induction xs)
  case Nil
  then show ?case by simp
next
  case (Cons x xs)
  from Cons.prems Cons.IH obtain s where s: "sort_js cmp xs = Inr s" by auto
  from set_sort_js [OF s] Cons.prems have "\<forall>y \<in> set s. \<exists>v. cmp x y = Inr v" by simp
  then have "\<exists>zs. insert_by cmp x s = Inr zs" by (rule insert_by_returns)
  with s show ?case by simp
qed

lemma filter_js_returns:
  "\<forall>x \<in> set xs. \<exists>b. p x = Inr b \<Longrightarrow> \<exists>ys. filter_js p xs = Inr ys"
proof (induction xs)
  case Nil
  then show ?case by simp
next
  case (Cons x xs)
  from Cons.prems obtain b where b: "p x = Inr b" by auto
  from Cons.prems Cons.IH obtain ys where "filter_js p xs = Inr ys" by auto
  with b show ?case by simp
qed

lemma of_tipo_returns:
  assumes "\<forall>c \<in> set cs. \<exists>t. to_string (get_prop c ''pontuacao'') = Inr t"
  shows "\<exists>ys. of_tipo cs tipo = Inr ys"
  unfolding of_tipo_def
proof (rule sort_js_returns, intro ballI)
  fix x y
  assume "x \<in> set (filter (\<lambda>c. strict_eq (get_prop c ''tipo'') (JStr tipo)) cs)"
    and "y \<in> set (filter (\<lambda>c. strict_eq (get_prop c ''tipo'') (JStr tipo)) cs)"
  then have "x \<in> set cs" "y \<in> set cs" by simp_all
  with assms obtain s t where "to_string (get_prop x ''pontuacao'') = Inr s"
    "to_string (get_prop y ''pontuacao'') = Inr t"
    by blast
  then show "\<exists>v. by_score x y = Inr v" by (rule by_score_returns)
qed

lemma getRegionData_returns:
  assumes "to_string r = Inr t"
    and "\<forall>c \<in> set cands. (\<exists>s. to_string (get_prop c ''region'') = Inr s)
                        \<and> (\<exists>s. to_string (get_prop c ''pontuacao'') = Inr s)"
  shows "\<exists>rd. getRegionData cands r = Inr rd"
proof -
  have "\<forall>c \<in> set cands. \<exists>b. loose_eq (get_prop c ''region'') r = Inr b"
    using assms loose_eq_returns by blast
  from filter_js_returns [OF this] obtain cs where
    cs: "candidatesForRegion cands r = Inr cs"
    unfolding candidatesForRegion_def by blast
  from filter_js_filter [OF cs [unfolded candidatesForRegion_def]] assms(2)
  have "\<forall>c \<in> set cs. \<exists>t. to_string (get_prop c ''pontuacao'') = Inr t" by simp
  from of_tipo_returns [OF this] obtain a p q where
    "of_tipo cs ''ampla'' = Inr a" "of_tipo cs ''pcd'' = Inr p" "of_tipo cs ''ppp'' = Inr q"
    by blast
  with cs show ?thesis by (simp add: getRegionData_def)
qed
text \<open>
  C1 at a cache that holds a score \<open>NaN\<close> (what \<open>restoreData\<close> stores for a score text
  that is no number): three candidates of region \<open>n\<close> and category \<open>ampla\<close> with the scores
  5, \<open>NaN\<close>, 10. The comparator yields \<open>NaN\<close> wherever the middle one is compared, which the
  sort takes as a tie, and the list comes back in the order of the cache: 5 stands before
  10, and the list is not non-ascending by score.
\<close>

theorem getRegionData_unsorted_with_NaN:
  "getRegionData
     [entry ''x'' ''A'' (Fin 5 0) ''ampla'' ''n'',
      entry ''y'' ''B'' NaN ''ampla'' ''n'',
      entry ''z'' ''C'' (Fin 1 1) ''ampla'' ''n''] (JStr ''n'')
   = Inr \<lparr>ampla = [entry ''x'' ''A'' (Fin 5 0) ''ampla'' ''n'',
                   entry ''y'' ''B'' NaN ''ampla'' ''n'',
                   entry ''z'' ''C'' (Fin 1 1) ''ampla'' ''n''],
           pcd = [], ppp = []\<rparr>
   \<and> num_less (Fin 5 0) (Fin 1 1)"
  by code_simp

text \<open>
  C9. A candidate whose \<open>tipo\<close> is none of the three category texts is in none of the three
  lists that \<open>getRegionData\<close> returns, whatever its region; so the lists together can miss
  candidates of the region, as they do for a cache holding one candidate of category
  \<open>outra\<close>. And \<open>getRegionData\<close> does return whenever the region asked for and the region
  and the score of every cached candidate have a text, no conversion throwing.
\<close>

theorem getRegionData_drops_other_tipo:
  "(get_prop c ''tipo'' \<notin> {JStr ''ampla'', JStr ''pcd'', JStr ''ppp''} \<longrightarrow>
      (\<forall>rd. getRegionData cands r = Inr rd \<longrightarrow>
         c \<notin> set (ampla rd) \<union> set (pcd rd) \<union> set (ppp rd)))
   \<and> ((\<exists>t. to_string r = Inr t)
       \<and> (\<forall>c \<in> set cands. (\<exists>t. to_string (get_prop c ''region'') = Inr t)
                           \<and> (\<exists>t. to_string (get_prop c ''pontuacao'') = Inr t))
      \<longrightarrow> (\<exists>rd. getRegionData cands r = Inr rd))
   \<and> (\<exists>cs region rd.
        getRegionData cs region = Inr rd
        \<and> set (ampla rd) \<union> set (pcd rd) \<union> set (ppp rd)
            \<subset> {c \<in> set cs. region_match region c})"
proof (intro conjI)
  show "get_prop c ''tipo'' \<notin> {JStr ''ampla'', JStr ''pcd'', JStr ''ppp''} \<longrightarrow>
      (\<forall>rd. getRegionData cands r = Inr rd \<longrightarrow>
         c \<notin> set (ampla rd) \<union> set (pcd rd) \<union> set (ppp rd))"
    by (auto simp: getRegionData_lists)
next
  show "(\<exists>t. to_string r = Inr t)
       \<and> (\<forall>c \<in> set cands. (\<exists>t. to_string (get_prop c ''region'') = Inr t)
                           \<and> (\<exists>t. to_string (get_prop c ''pontuacao'') = Inr t))
      \<longrightarrow> (\<exists>rd. getRegionData cands r = Inr rd)"
    using getRegionData_returns [of r _ cands] by blast
next
  have g: "getRegionData [entry ''x'' ''A'' (Fin 5 0) ''outra'' ''n''] (JStr ''n'')
           = Inr \<lparr>ampla = [], pcd = [], ppp = []\<rparr>"
    by code_simp
  have m: "region_match (JStr ''n'') (entry ''x'' ''A'' (Fin 5 0) ''outra'' ''n'')"
    by code_simp
  have "set (ampla \<lparr>ampla = [], pcd = [], ppp = []\<rparr>) \<union> set (pcd \<lparr>ampla = [], pcd = [], ppp = []\<rparr>)
          \<union> set (ppp \<lparr>ampla = [], pcd = [], ppp = []\<rparr>)
        \<subset> {c \<in> set [entry ''x'' ''A'' (Fin 5 0) ''outra'' ''n'']. region_match (JStr ''n'') c}"
    using m by auto
  with g show "\<exists>cs region rd.
        getRegionData cs region = Inr rd
        \<and> set (ampla rd) \<union> set (pcd rd) \<union> set (ppp rd)
            \<subset> {c \<in> set cs. region_match region c}"
    by blast
qed

theorem getRegionData_drops_other_tipo_witness:
  "get_prop (entry ''x'' ''A'' (Fin 5 0) ''outra'' ''n'') ''tipo''
      \<notin> {JStr ''ampla'', JStr ''pcd'', JStr ''ppp''}
   \<and> to_string (JStr ''n'') = Inr ''n''
   \<and> to_string (get_prop (entry ''x'' ''A'' (Fin 5 0) ''outra'' ''n'') ''region'') = Inr ''n''
   \<and> to_string (get_prop (entry ''x'' ''A'' (Fin 5 0) ''outra'' ''n'') ''pontuacao'') = Inr ''5''
   \<and> to_string (get_prop alice ''region'') = Inr ''north''
   \<and> to_string (get_prop alice ''pontuacao'') = Inr ''90''
   \<and> (\<exists>rd. getRegionData [entry ''x'' ''A'' (Fin 5 0) ''outra'' ''n'', alice] (JStr ''n'')
             = Inr rd)
   \<and> getRegionData [entry ''x'' ''A'' (Fin 5 0) ''outra'' ''n'', alice] (JStr ''n'')
       = Inr \<lparr>ampla = [], pcd = [], ppp = []\<rparr>
   \<and> entry ''x'' ''A'' (Fin 5 0) ''outra'' ''n''
      \<notin> set (ampla \<lparr>ampla = [], pcd = [], ppp = []\<rparr>)
        \<union> set (pcd \<lparr>ampla = [], pcd = [], ppp = []\<rparr>)
        \<union> set (ppp \<lparr>ampla = [], pcd = [], ppp = []\<rparr>)"
proof -
  let ?x = "entry ''x'' ''A'' (Fin 5 0) ''outra'' ''n''"
  have h: "get_prop ?x ''tipo'' \<notin> {JStr ''ampla'', JStr ''pcd'', JStr ''ppp''}"
    by code_simp
  have g: "getRegionData [?x, alice] (JStr ''n'') = Inr \<lparr>ampla = [], pcd = [], ppp = []\<rparr>"
    by code_simp
  have s: "to_string (JStr ''n'') = Inr ''n''"
    "to_string (get_prop ?x ''region'') = Inr ''n''"
    "to_string (get_prop ?x ''pontuacao'') = Inr ''5''"
    "to_string (get_prop alice ''region'') = Inr ''north''"
    "to_string (get_prop alice ''pontuacao'') = Inr ''90''"
    by code_simp+
  have a: "(\<exists>t. to_string (JStr ''n'') = Inr t)
       \<and> (\<forall>c \<in> set [?x, alice]. (\<exists>t. to_string (get_prop c ''region'') = Inr t)
                           \<and> (\<exists>t. to_string (get_prop c ''pontuacao'') = Inr t))"
    using s by simp
  note t = getRegionData_drops_other_tipo [of ?x "[?x, alice]" "JStr ''n''"]
  from t a have r: "\<exists>rd. getRegionData [?x, alice] (JStr ''n'') = Inr rd" by blast
  from t h g have n: "?x \<notin> set (ampla \<lparr>ampla = [], pcd = [], ppp = []\<rparr>)
        \<union> set (pcd \<lparr>ampla = [], pcd = [], ppp = []\<rparr>)
        \<union> set (ppp \<lparr>ampla = [], pcd = [], ppp = []\<rparr>)"
    by blast
  show ?thesis
    by (intro conjI) (fact h s r g n)+
qed
section \<open>The write operations\<close>

lemma next_outcome_none: "outcomes w = [] \<Longrightarrow> next_outcome w = (Resolves, w)"
  by (simp add: next_outcome_def)

lemma delete_all_resolving:
  "outcomes w = [] \<Longrightarrow>
   delete_all ids w ok =
     (ok, w\<lparr>trace := trace w @ map Delete ids,
            remote := filter (\<lambda>d. fst d \<notin> set ids) (remote w)\<rparr>)"
proof (induction ids arbitrary: w)
  case Nil
  then show ?case by simp
next
  case (Cons i ids)
  let ?w1 = "w\<lparr>trace := trace w @ [Delete i], remote := filter (\<lambda>d. fst d \<noteq> i) (remote w)\<rparr>"
  have d: "deleteDoc w i = (Resolves, ?w1)"
    using Cons.prems by (simp add: deleteDoc_def next_outcome_none)
  have "outcomes ?w1 = []" using Cons.prems by simp
  from Cons.IH [OF this] d show ?case
    by (simp add: conj_commute)
qed

lemma clearAll_resolving:
  assumes "isAuthReady f" and "outcomes w = []"
  shows "clearAll f w =
     (True, f, w\<lparr>trace := trace w @ Query # map (Delete \<circ> fst) (remote w), remote := []\<rparr>)"
proof -
  let ?w1 = "w\<lparr>trace := trace w @ [Query]\<rparr>"
  have g: "getDocs w = (Some (remote w), ?w1)"
    using assms by (simp add: getDocs_def next_outcome_none)
  have "outcomes ?w1 = []" using assms by simp
  from delete_all_resolving [OF this, of "map fst (remote w)" True] g assms
  show ?thesis by (simp add: clearAll_def)
qed

text \<open>
  C6. While readiness is not established each of the three write operations returns
  failure at once: no request is issued, the world and the facade are as they were.
\<close>

theorem not_ready_fails_closed:
  assumes "\<not> isAuthReady f"
  shows "addCandidate f w region candidate = (False, f, w)
       \<and> clearAll f w = (False, f, w)
       \<and> restoreData f w jsonData = (False, f, w)"
  using assms by (simp add: addCandidate_def clearAll_def restoreData_def)

theorem not_ready_fails_closed_witness:
  "\<not> isAuthReady (not_ready [alice])
   \<and> addCandidate (not_ready [alice]) (service [(''a1'', alice)]) (JStr ''north'') bob
       = (False, not_ready [alice], service [(''a1'', alice)])
   \<and> clearAll (not_ready [alice]) (service [(''a1'', alice)])
       = (False, not_ready [alice], service [(''a1'', alice)])
   \<and> restoreData (not_ready [alice]) (service [(''a1'', alice)]) ''[]''
       = (False, not_ready [alice], service [(''a1'', alice)])"
proof -
  have h: "\<not> isAuthReady (not_ready [alice])" by (simp add: not_ready_def)
  from not_ready_fails_closed [OF h] h show ?thesis by simp
qed

text \<open>
  C7. A ready facade, an empty remote collection, and a query that resolves: \<open>clearAll\<close>
  reports success, the one request it issues is the query, and no deletion follows.
\<close>

theorem clearAll_empty_collection:
  assumes "isAuthReady f" and "remote w = []" and "fst (next_outcome w) = Resolves"
  shows "clearAll f w = (True, f, (snd (next_outcome w))\<lparr>trace := trace w @ [Query]\<rparr>)"
proof -
  obtain w1 where n: "next_outcome w = (Resolves, w1)"
    using assms(3) by (cases "next_outcome w") simp
  then have "remote w1 = [] \<and> trace w1 = trace w"
    using assms(2) by (auto simp: next_outcome_def split: list.splits)
  with n assms(1) show ?thesis
    by (simp add: clearAll_def getDocs_def)
qed

theorem clearAll_empty_collection_witness:
  "isAuthReady (ready []) \<and> remote (service []) = []
   \<and> fst (next_outcome (service [])) = Resolves
   \<and> fst (clearAll (ready []) (service []))
   \<and> trace (snd (snd (clearAll (ready []) (service [])))) = [Query]"
proof -
  have h: "isAuthReady (ready [])" "remote (service []) = []"
    "fst (next_outcome (service [])) = Resolves"
    by (simp_all add: ready_def service_def next_outcome_def)
  from clearAll_empty_collection [OF h] h show ?thesis
    by (simp add: service_def)
qed

text \<open>
  C3. A ready facade and a payload that \<^verbatim>\<open>JSON.parse\<close> rejects, or that parses to a value
  other than an array: \<open>restoreData\<close> reports failure and issues no request at all, so the
  remote store (and the rest of the world) is as it was.
\<close>

theorem restoreData_rejects_non_array:
  assumes "isAuthReady f"
    and "case JSON_parse jsonData of None \<Rightarrow> True | Some v \<Rightarrow> \<not> is_array v"
  shows "restoreData f w jsonData = (False, f, w)"
  using assms by (auto simp: restoreData_def split: option.splits)

theorem restoreData_rejects_non_array_witness:
  "isAuthReady (ready [])
   \<and> JSON_parse ''{\"nome\": \"A\"}'' = Some (JObj [(''nome'', JStr ''A'')])
   \<and> restoreData (ready []) (service [(''a1'', alice)]) ''{\"nome\": \"A\"}''
       = (False, ready [], service [(''a1'', alice)])
   \<and> JSON_parse ''not json'' = None
   \<and> restoreData (ready []) (service [(''a1'', alice)]) ''not json''
       = (False, ready [], service [(''a1'', alice)])"
proof -
  have r: "isAuthReady (ready [])" by (simp add: ready_def)
  have p1: "JSON_parse ''{\"nome\": \"A\"}'' = Some (JObj [(''nome'', JStr ''A'')])"
    by code_simp
  have p2: "JSON_parse ''not json'' = None"
    by code_simp
  have h1: "case JSON_parse ''{\"nome\": \"A\"}'' of None \<Rightarrow> True | Some v \<Rightarrow> \<not> is_array v"
    by (simp add: p1)
  have h2: "case JSON_parse ''not json'' of None \<Rightarrow> True | Some v \<Rightarrow> \<not> is_array v"
    by (simp add: p2)
  from restoreData_rejects_non_array [OF r h1] restoreData_rejects_non_array [OF r h2] r p1 p2
  show ?thesis by simp
qed
lemma addDoc_resolving:
  "outcomes w = [] \<Longrightarrow>
   addDoc w d = (Resolves, w\<lparr>trace := trace w @ [Add d],
                              remote := remote w @ [(auto_id w (ids_used w), d)],
                              ids_used := Suc (ids_used w)\<rparr>)"
  by (simp add: addDoc_def next_outcome_none)

lemma restore_loop_skip:
  "\<not> required_fields ms \<Longrightarrow> restore_loop (JObj ms # rest) w ok = restore_loop rest w ok"
  by simp

lemma restore_loop_write:
  assumes "required_fields ms" and "parseFloat (get_prop ms ''pontuacao'') = Inr n"
    and "outcomes w = []"
  shows "restore_loop (JObj ms # rest) w ok =
     restore_loop rest
       (w\<lparr>trace := trace w @ [Add (restored_record ms n (date_at w (dates_read w)))],
          remote := remote w @ [(auto_id w (ids_used w),
                                 restored_record ms n (date_at w (dates_read w)))],
          ids_used := Suc (ids_used w),
          dates_read := (if truthy (get_prop ms ''timestamp'') then dates_read w
                         else Suc (dates_read w))\<rparr>) ok"
proof (cases "truthy (get_prop ms ''timestamp'')")
  case True
  have "restored_record ms n [] = restored_record ms n (date_at w (dates_read w))"
    using True by (simp add: restored_record_def)
  with True assms show ?thesis
    by (simp add: addDoc_resolving)
next
  case False
  let ?w1 = "w\<lparr>dates_read := Suc (dates_read w)\<rparr>"
  have "outcomes ?w1 = []" using assms by simp
  from addDoc_resolving [OF this] False assms show ?thesis
    by (cases w) (simp add: new_date_def)
qed

text \<open>
  C2, as the code has it. A ready facade, a service that resolves every request, and a
  payload that parses to an array of two records, in either order: one without a score,
  and one whose name, category and region are truthy and from whose score \<^verbatim>\<open>parseFloat\<close>
  reads the number \<open>n\<close>. Then \<open>restoreData\<close> reports success; it issues the query and the
  deletions of the clear and then one write; the record without a score is skipped;
  afterwards the collection holds the written record alone. The written record has five
  fields: the name, category and region of the input, the score \<open>n\<close>, and for timestamp
  that of the input when it is truthy, the reading of the clock otherwise.
\<close>

theorem restoreData_skips_invalid:
  assumes "isAuthReady f" and "outcomes w = []"
    and "JSON_parse jsonData = Some (JArr xs)"
    and "xs = [JObj bad, JObj good] \<or> xs = [JObj good, JObj bad]"
    and "get_prop bad ''pontuacao'' = JUndefined"
    and "truthy (get_prop good ''nome'')" and "get_prop good ''pontuacao'' \<noteq> JUndefined"
    and "truthy (get_prop good ''tipo'')" and "truthy (get_prop good ''region'')"
    and "parseFloat (get_prop good ''pontuacao'') = Inr n"
  shows "restoreData f w jsonData =
     (True, f,
      w\<lparr>trace := trace w @ Query # map (Delete \<circ> fst) (remote w)
                   @ [Add [(''nome'', get_prop good ''nome''),
                           (''pontuacao'', JNum n),
                           (''tipo'', get_prop good ''tipo''),
                           (''region'', get_prop good ''region''),
                           (''timestamp'',
                            if truthy (get_prop good ''timestamp'')
                            then get_prop good ''timestamp''
                            else JStr (date_at w (dates_read w)))]],
        remote := [(auto_id w (ids_used w),
                    [(''nome'', get_prop good ''nome''),
                     (''pontuacao'', JNum n),
                     (''tipo'', get_prop good ''tipo''),
                     (''region'', get_prop good ''region''),
                     (''timestamp'',
                      if truthy (get_prop good ''timestamp'')
                      then get_prop good ''timestamp''
                      else JStr (date_at w (dates_read w)))])],
        ids_used := Suc (ids_used w),
        dates_read := (if truthy (get_prop good ''timestamp'') then dates_read w
                       else Suc (dates_read w))\<rparr>)"
proof -
  let ?w1 = "w\<lparr>trace := trace w @ Query # map (Delete \<circ> fst) (remote w), remote := []\<rparr>"
  have c: "clearAll f w = (True, f, ?w1)"
    using assms(1,2) by (rule clearAll_resolving)
  have o: "outcomes ?w1 = []" using assms(2) by simp
  have nb: "\<not> required_fields bad"
    using assms(5) by (simp add: required_fields_def)
  have rg: "required_fields good"
    using assms(6-9) by (simp add: required_fields_def)
  have loop: "restore_loop xs ?w1 True =
     (True, ?w1\<lparr>trace := trace ?w1 @ [Add (restored_record good n (date_at ?w1 (dates_read ?w1)))],
          remote := remote ?w1 @ [(auto_id ?w1 (ids_used ?w1),
                                 restored_record good n (date_at ?w1 (dates_read ?w1)))],
          ids_used := Suc (ids_used ?w1),
          dates_read := (if truthy (get_prop good ''timestamp'') then dates_read ?w1
                         else Suc (dates_read ?w1))\<rparr>)"
    using assms(4)
  proof
    assume "xs = [JObj bad, JObj good]"
    then show ?thesis
      by (simp only: restore_loop_skip [OF nb] restore_loop_write [OF rg assms(10) o]
            restore_loop.simps(1))
  next
    assume x: "xs = [JObj good, JObj bad]"
    show ?thesis
      unfolding x restore_loop_write [OF rg assms(10) o]
      by (simp only: restore_loop_skip [OF nb] restore_loop.simps(1))
  qed
  have "restoreData f w jsonData = (True, f, snd (restore_loop xs ?w1 True))"
    using assms(1,3) c loop by (simp add: restoreData_def)
  then show ?thesis unfolding loop
    by (simp add: restored_record_def)
qed

theorem restoreData_skips_invalid_witness:
  "isAuthReady (ready []) \<and> outcomes (service [(''a1'', alice)]) = []
   \<and> JSON_parse sample_backup = Some (JArr [JObj no_score, JObj text_score])
   \<and> get_prop no_score ''pontuacao'' = JUndefined
   \<and> truthy (get_prop text_score ''nome'') \<and> get_prop text_score ''pontuacao'' \<noteq> JUndefined
   \<and> truthy (get_prop text_score ''tipo'') \<and> truthy (get_prop text_score ''region'')
   \<and> parseFloat (get_prop text_score ''pontuacao'') = Inr (Fin 9 1)
   \<and> fst (restoreData (ready []) (service [(''a1'', alice)]) sample_backup)
   \<and> trace (snd (snd (restoreData (ready []) (service [(''a1'', alice)]) sample_backup))) =
       [Query, Delete ''a1'',
        Add [(''nome'', JStr ''Bob''), (''pontuacao'', JNum (Fin 9 1)),
             (''tipo'', JStr ''ampla''), (''region'', JStr ''north''),
             (''timestamp'', JStr ''T0'')]]
   \<and> remote (snd (snd (restoreData (ready []) (service [(''a1'', alice)]) sample_backup))) =
       [(''doc0'', [(''nome'', JStr ''Bob''), (''pontuacao'', JNum (Fin 9 1)),
                    (''tipo'', JStr ''ampla''), (''region'', JStr ''north''),
                    (''timestamp'', JStr ''T0'')])]"
proof -
  have r: "isAuthReady (ready [])" by (simp add: ready_def)
  have o: "outcomes (service [(''a1'', alice)]) = []" by (simp add: service_def)
  have p: "JSON_parse sample_backup = Some (JArr [JObj no_score, JObj text_score])"
    by code_simp
  have x: "[JObj no_score, JObj text_score] = [JObj no_score, JObj text_score]
           \<or> [JObj no_score, JObj text_score] = [JObj text_score, JObj no_score]"
    by simp
  have b: "get_prop no_score ''pontuacao'' = JUndefined" by code_simp
  have g: "truthy (get_prop text_score ''nome'')" "get_prop text_score ''pontuacao'' \<noteq> JUndefined"
    "truthy (get_prop text_score ''tipo'')" "truthy (get_prop text_score ''region'')"
    by code_simp+
  have n: "parseFloat (get_prop text_score ''pontuacao'') = Inr (Fin 9 1)" by code_simp
  have v: "get_prop text_score ''nome'' = JStr ''Bob''" "get_prop text_score ''tipo'' = JStr ''ampla''"
    "get_prop text_score ''region'' = JStr ''north''" "get_prop text_score ''timestamp'' = JUndefined"
    by code_simp+
  have d: "digits 0 = ''0''" by code_simp
  from restoreData_skips_invalid [OF r o p x b g n] r o p b g n show ?thesis
    by (simp add: service_def d v)
qed

text \<open>
  The claim as written has the timestamp of the input kept whenever it is present. The
  test is \<^verbatim>\<open>candidate.timestamp || new Date().toISOString()\<close>: a record whose timestamp
  is there but is the empty text is written with the reading of the clock.
\<close>

theorem restoreData_timestamp_counterexample:
  "JSON_parse empty_stamp_backup =
     Some (JArr [JObj [(''nome'', JStr ''Bob''), (''pontuacao'', JNum (Fin 9 1)),
                       (''tipo'', JStr ''ampla''), (''region'', JStr ''north''),
                       (''timestamp'', JStr [])]])
   \<and> fst (restoreData (ready []) (service []) empty_stamp_backup)
   \<and> adds_of (trace (snd (snd (restoreData (ready []) (service []) empty_stamp_backup)))) =
       [[(''nome'', JStr ''Bob''), (''pontuacao'', JNum (Fin 9 1)),
         (''tipo'', JStr ''ampla''), (''region'', JStr ''north''),
         (''timestamp'', JStr ''T0'')]]"
  by code_simp
section \<open>\<^verbatim>\<open>exportCSV\<close>\<close>

lemma collect_Inl: "collect rs = Inl e \<Longrightarrow> Inl e \<in> set rs"
proof (induction rs)
  case Nil
  then show ?case by simp
next
  case (Cons r rs)
  then show ?case
    by (cases r; cases "collect rs") simp_all
qed

lemma to_string_error: "to_string v = Inl e \<Longrightarrow> e = TypeError"
proof (induction v arbitrary: e rule: to_string.induct)
  case (6 xs)
  let ?rs = "map (\<lambda>x. if nullish x then Inr [] else to_string x) xs"
  from "6.prems" have "collect ?rs = Inl e"
    by (cases "collect ?rs") simp_all
  from collect_Inl [OF this] obtain x where
    "x \<in> set xs" "\<not> nullish x" "to_string x = Inl e"
    by (auto split: if_splits)
  then show ?case by (rule "6.IH")
qed (simp_all split: if_splits)

lemma to_string_cases: "to_string v = Inl TypeError \<or> (\<exists>t. to_string v = Inr t)"
proof (cases "to_string v")
  case (Inl e)
  with to_string_error [of v e] show ?thesis by simp
next
  case (Inr t)
  then show ?thesis by simp
qed

lemma csv_line_texts:
  assumes "\<forall>v \<in> set (line_values c). \<exists>t. to_string v = Inr t"
  shows "csv_line c =
     Inr (projr (to_string (get_prop c ''region'')) @ '','' @ [CHR 0x22]
          @ projr (to_string (get_prop c ''nome'')) @ [CHR 0x22] @ '',''
          @ projr (to_string (get_prop c ''pontuacao'')) @ '',''
          @ tipoName (get_prop c ''tipo'') @ '',''
          @ projr (to_string (get_prop c ''timestamp'')) @ [CHR 0x0A])"
proof -
  from assms obtain r n p t where
    "to_string (get_prop c ''region'') = Inr r" "to_string (get_prop c ''nome'') = Inr n"
    "to_string (get_prop c ''pontuacao'') = Inr p" "to_string (get_prop c ''timestamp'') = Inr t"
    by (auto simp: line_values_def)
  then show ?thesis by (simp add: csv_line_def)
qed

lemma csv_line_throws:
  assumes "\<not> (\<forall>v \<in> set (line_values c). \<exists>t. to_string v = Inr t)"
  shows "csv_line c = Inl TypeError"
proof -
  note cs = to_string_cases [of "get_prop c ''region''"] to_string_cases [of "get_prop c ''nome''"]
    to_string_cases [of "get_prop c ''pontuacao''"] to_string_cases [of "get_prop c ''timestamp''"]
  from assms have "to_string (get_prop c ''region'') = Inl TypeError
    \<or> to_string (get_prop c ''nome'') = Inl TypeError
    \<or> to_string (get_prop c ''pontuacao'') = Inl TypeError
    \<or> to_string (get_prop c ''timestamp'') = Inl TypeError"
    using cs by (auto simp: line_values_def)
  with cs show ?thesis
    by (auto simp: csv_line_def)
qed

lemma csv_lines_texts:
  "\<forall>c \<in> set cs. \<forall>v \<in> set (line_values c). \<exists>t. to_string v = Inr t \<Longrightarrow>
   csv_lines acc cs = Inr (acc @ concat (map (\<lambda>c. projr (csv_line c)) cs))"
proof (induction cs arbitrary: acc)
  case Nil
  then show ?case by simp
next
  case (Cons c cs)
  from Cons.prems have "\<forall>v \<in> set (line_values c). \<exists>t. to_string v = Inr t" by simp
  from csv_line_texts [OF this] obtain l where l: "csv_line c = Inr l" by blast
  from Cons.prems have "\<forall>c \<in> set cs. \<forall>v \<in> set (line_values c). \<exists>t. to_string v = Inr t"
    by simp
  from Cons.IH [OF this] l show ?case by simp
qed

lemma csv_lines_throws:
  "\<not> (\<forall>c \<in> set cs. \<forall>v \<in> set (line_values c). \<exists>t. to_string v = Inr t) \<Longrightarrow>
   csv_lines acc cs = Inl TypeError"
proof (induction cs arbitrary: acc)
  case Nil
  then show ?case by simp
next
  case (Cons c cs)
  show ?case
  proof (cases "\<forall>v \<in> set (line_values c). \<exists>t. to_string v = Inr t")
    case False
    from csv_line_throws [OF this] show ?thesis by simp
  next
    case True
    from csv_line_texts [OF this] obtain l where l: "csv_line c = Inr l" by blast
    from True Cons.prems
    have "\<not> (\<forall>c \<in> set cs. \<forall>v \<in> set (line_values c). \<exists>t. to_string v = Inr t)" by simp
    from Cons.IH [OF this] l show ?thesis by simp
  qed
qed

text \<open>
  C8, as the code has it. When the region, the name, the score and the timestamp of every
  cached candidate have a text, the text of \<open>exportCSV\<close> is the header line
  \<^verbatim>\<open>Regi\<close>\<open>\<atilde>\<close>\<^verbatim>\<open>o,Nome,Pontua\<close>\<open>\<ccedilla>\<atilde>\<close>\<^verbatim>\<open>o,Tipo,Data/Hora\<close> followed by one line per cached candidate, in
  cache order: region, name between double quotes, score, label, timestamp, separated by
  commas and ended by a line feed, every value inserted as its text with nothing escaped
  (the text of a string is the string). When one of these values has no text, its
  conversion throwing, \<open>exportCSV\<close> throws a \<^verbatim>\<open>TypeError\<close>. The label is
  \<^verbatim>\<open>Ampla Concorr\<close>\<open>\<ecircumflex>\<close>\<^verbatim>\<open>ncia\<close> for \<^verbatim>\<open>ampla\<close>, \<^verbatim>\<open>PCD\<close> for \<^verbatim>\<open>pcd\<close> and \<^verbatim>\<open>PPP\<close> for every other
  category, \<^verbatim>\<open>ppp\<close> among them.
\<close>

theorem exportCSV_text:
  "(if \<forall>c \<in> set cs. \<forall>v \<in> set (line_values c). \<exists>t. to_string v = Inr t
    then exportCSV cs =
      Inr (''Regi'' @ [CHR 0xC3, CHR 0xA3] @ ''o,Nome,Pontua''
           @ [CHR 0xC3, CHR 0xA7, CHR 0xC3, CHR 0xA3] @ ''o,Tipo,Data/Hora'' @ [CHR 0x0A]
           @ concat (map (\<lambda>c. projr (to_string (get_prop c ''region'')) @ '','' @ [CHR 0x22]
                          @ projr (to_string (get_prop c ''nome'')) @ [CHR 0x22] @ '',''
                          @ projr (to_string (get_prop c ''pontuacao'')) @ '',''
                          @ tipoName (get_prop c ''tipo'') @ '',''
                          @ projr (to_string (get_prop c ''timestamp'')) @ [CHR 0x0A]) cs))
    else exportCSV cs = Inl TypeError)
   \<and> to_string (JStr s) = Inr s
   \<and> tipoName (JStr ''ampla'') = ''Ampla Concorr'' @ [CHR 0xC3, CHR 0xAA] @ ''ncia''
   \<and> tipoName (JStr ''pcd'') = ''PCD''
   \<and> tipoName (JStr ''ppp'') = ''PPP''
   \<and> (tipo \<noteq> JStr ''ampla'' \<and> tipo \<noteq> JStr ''pcd'' \<longrightarrow> tipoName tipo = ''PPP'')"
proof -
  let ?ok = "\<forall>c \<in> set cs. \<forall>v \<in> set (line_values c). \<exists>t. to_string v = Inr t"
  let ?line = "\<lambda>c. projr (to_string (get_prop c ''region'')) @ '','' @ [CHR 0x22]
                          @ projr (to_string (get_prop c ''nome'')) @ [CHR 0x22] @ '',''
                          @ projr (to_string (get_prop c ''pontuacao'')) @ '',''
                          @ tipoName (get_prop c ''tipo'') @ '',''
                          @ projr (to_string (get_prop c ''timestamp'')) @ [CHR 0x0A]"
  have a: "exportCSV cs = Inr (csv_header @ concat (map ?line cs))" if ok: ?ok
  proof -
    have "map (\<lambda>c. projr (csv_line c)) cs = map ?line cs"
    proof (rule map_cong [OF refl])
      fix c assume "c \<in> set cs"
      with ok have "\<forall>v \<in> set (line_values c). \<exists>t. to_string v = Inr t" by simp
      from csv_line_texts [OF this] show "projr (csv_line c) = ?line c" by simp
    qed
    with csv_lines_texts [OF ok, of csv_header] show ?thesis
      by (simp add: exportCSV_def)
  qed
  have b: "exportCSV cs = Inl TypeError" if "\<not> ?ok"
    using csv_lines_throws [OF that] by (simp add: exportCSV_def)
  have h: "csv_header = ''Regi'' @ [CHR 0xC3, CHR 0xA3] @ ''o,Nome,Pontua''
           @ [CHR 0xC3, CHR 0xA7, CHR 0xC3, CHR 0xA3] @ ''o,Tipo,Data/Hora'' @ [CHR 0x0A]"
    by (simp add: csv_header_def)
  have t: "tipoName (JStr ''ampla'') = ''Ampla Concorr'' @ [CHR 0xC3, CHR 0xAA] @ ''ncia''"
    "tipoName (JStr ''pcd'') = ''PCD''" "tipoName (JStr ''ppp'') = ''PPP''"
    "tipo \<noteq> JStr ''ampla'' \<and> tipo \<noteq> JStr ''pcd'' \<longrightarrow> tipoName tipo = ''PPP''"
    by (simp_all add: tipoName_def strict_eq_JStr)
  show ?thesis
  proof (cases ?ok)
    case True
    from a [OF True] have "exportCSV cs =
      Inr (''Regi'' @ [CHR 0xC3, CHR 0xA3] @ ''o,Nome,Pontua''
           @ [CHR 0xC3, CHR 0xA7, CHR 0xC3, CHR 0xA3] @ ''o,Tipo,Data/Hora'' @ [CHR 0x0A]
           @ concat (map ?line cs))"
      unfolding h by simp
    with True t show ?thesis by simp
  next
    case False
    from b [OF False] False t show ?thesis by simp
  qed
qed

text \<open>
  One cached candidate whose name holds a double quote and whose region holds a comma:
  both go into the line as they are. A candidate whose region is an object with a
  property \<^verbatim>\<open>toString\<close>: the export throws. A category that is none of the three: the
  label is \<^verbatim>\<open>PPP\<close>.
\<close>

theorem exportCSV_text_witness:
  "exportCSV [awkward] =
     Inr (''Regi'' @ [CHR 0xC3, CHR 0xA3] @ ''o,Nome,Pontua''
          @ [CHR 0xC3, CHR 0xA7, CHR 0xC3, CHR 0xA3] @ ''o,Tipo,Data/Hora'' @ [CHR 0x0A]
          @ ''north, east,\"Ana \"Nana\" Lima\",87.5,PCD,T0'' @ [CHR 0x0A])
   \<and> to_string (get_prop awkward ''region'') = Inr ''north, east''
   \<and> to_string (get_prop awkward ''nome'') = Inr ''Ana \"Nana\" Lima''
   \<and> to_string (get_prop awkward ''pontuacao'') = Inr ''87.5''
   \<and> to_string (get_prop awkward ''timestamp'') = Inr ''T0''
   \<and> to_string (JObj [(''toString'', JNum (Fin 5 0))]) = Inl TypeError
   \<and> exportCSV [[(''region'', JObj [(''toString'', JNum (Fin 5 0))])]] = Inl TypeError
   \<and> JStr ''other'' \<noteq> JStr ''ampla'' \<and> JStr ''other'' \<noteq> JStr ''pcd''
   \<and> tipoName (JStr ''other'') = ''PPP''"
proof -
  let ?bad = "[(''region'', JObj [(''toString'', JNum (Fin 5 0))])]"
  have v: "to_string (get_prop awkward ''region'') = Inr ''north, east''"
    "to_string (get_prop awkward ''nome'') = Inr ''Ana \"Nana\" Lima''"
    "to_string (get_prop awkward ''pontuacao'') = Inr ''87.5''"
    "to_string (get_prop awkward ''timestamp'') = Inr ''T0''"
    "get_prop awkward ''tipo'' = JStr ''pcd''"
    by code_simp+
  have e: "to_string (JObj [(''toString'', JNum (Fin 5 0))]) = Inl TypeError" by simp
  have ok: "\<forall>c \<in> set [awkward]. \<forall>v \<in> set (line_values c). \<exists>t. to_string v = Inr t"
    using v by (simp add: line_values_def)
  have no: "\<not> (\<forall>c \<in> set [?bad]. \<forall>v \<in> set (line_values c). \<exists>t. to_string v = Inr t)"
    by (simp add: line_values_def get_prop_def)
  have d: "JStr ''other'' \<noteq> JStr ''ampla''" "JStr ''other'' \<noteq> JStr ''pcd''" by simp_all
  note t = exportCSV_text [of "[awkward]" "[]" "JStr ''other''"]
  from t have pcd: "tipoName (JStr ''pcd'') = ''PCD''" by blast
  from t d have other: "tipoName (JStr ''other'') = ''PPP''" by blast
  from t ok have "exportCSV [awkward] =
     Inr (''Regi'' @ [CHR 0xC3, CHR 0xA3] @ ''o,Nome,Pontua''
          @ [CHR 0xC3, CHR 0xA7, CHR 0xC3, CHR 0xA3] @ ''o,Tipo,Data/Hora'' @ [CHR 0x0A]
          @ concat (map (\<lambda>c. projr (to_string (get_prop c ''region'')) @ '','' @ [CHR 0x22]
                          @ projr (to_string (get_prop c ''nome'')) @ [CHR 0x22] @ '',''
                          @ projr (to_string (get_prop c ''pontuacao'')) @ '',''
                          @ tipoName (get_prop c ''tipo'') @ '',''
                          @ projr (to_string (get_prop c ''timestamp'')) @ [CHR 0x0A]) [awkward]))"
    by (simp only: if_True)
  then have line: "exportCSV [awkward] =
     Inr (''Regi'' @ [CHR 0xC3, CHR 0xA3] @ ''o,Nome,Pontua''
          @ [CHR 0xC3, CHR 0xA7, CHR 0xC3, CHR 0xA3] @ ''o,Tipo,Data/Hora'' @ [CHR 0x0A]
          @ ''north, east,\"Ana \"Nana\" Lima\",87.5,PCD,T0'' @ [CHR 0x0A])"
    by (simp add: v pcd)
  from exportCSV_text [of "[?bad]" "[]" JNull] no
  have bad: "exportCSV [?bad] = Inl TypeError"
    by (simp only: if_False)
  show ?thesis
    by (intro conjI) (fact line v e bad d other)+
qed

text \<open>
  The claim as written names the header \<^verbatim>\<open>Region,Name,Score,Category,Timestamp\<close>; the
  export of the empty cache, which is the header alone, does not begin with it.
\<close>

theorem exportCSV_header_counterexample:
  "exportCSV [] =
     Inr (''Regi'' @ [CHR 0xC3, CHR 0xA3] @ ''o,Nome,Pontua''
          @ [CHR 0xC3, CHR 0xA7, CHR 0xC3, CHR 0xA3] @ ''o,Tipo,Data/Hora'' @ [CHR 0x0A])
   \<and> (\<forall>t. exportCSV [] \<noteq> Inr (spec_header @ t))"
  by (simp add: exportCSV_def csv_header_def spec_header_def)
section \<open>Numbers: printing and reading back\<close>

lemma digit_char_table:
  "\<forall>d \<in> set [0 ..< 10].
     is_digit (digit_char d) \<and> hex_val (digit_char d) = Some d
     \<and> (digit_char d = CHR ''0'') = (d = 0)"
  by code_simp

lemma digit_char_is_digit: "d < 10 \<Longrightarrow> is_digit (digit_char d)"
  using digit_char_table by simp

lemma hex_val_digit_char: "d < 10 \<Longrightarrow> hex_val (digit_char d) = Some d"
  using digit_char_table by simp

lemma digit_char_zero: "d < 10 \<Longrightarrow> (digit_char d = CHR ''0'') = (d = 0)"
  using digit_char_table by simp

lemma digits_not_Nil: "digits n \<noteq> []"
  by (subst digits.simps) simp

lemma digits_all_digit: "\<forall>c \<in> set (digits n). is_digit c"
proof (induction n rule: digits.induct)
  case (1 n)
  show ?case
  proof (cases "n < 10")
    case True
    then show ?thesis by (subst digits.simps) (simp add: digit_char_is_digit)
  next
    case False
    with 1 show ?thesis by (subst digits.simps) (simp add: digit_char_is_digit)
  qed
qed

lemma nat_of_base_snoc:
  "nat_of_base b (ds @ [c]) = b * nat_of_base b ds + (case hex_val c of None \<Rightarrow> 0 | Some d \<Rightarrow> d)"
  by (simp add: nat_of_base_def)

lemma nat_of_base_digits: "nat_of_base 10 (digits n) = n"
proof (induction n rule: digits.induct)
  case (1 n)
  show ?case
  proof (cases "n < 10")
    case True
    then show ?thesis
      by (subst digits.simps) (simp add: nat_of_base_def hex_val_digit_char)
  next
    case False
    with 1 show ?thesis
      by (subst digits.simps) (simp add: nat_of_base_snoc hex_val_digit_char)
  qed
qed

lemma hd_digits: "0 < n \<Longrightarrow> hd (digits n) \<noteq> CHR ''0''"
proof (induction n rule: digits.induct)
  case (1 n)
  show ?case
  proof (cases "n < 10")
    case True
    with 1 show ?thesis by (subst digits.simps) (simp add: digit_char_zero)
  next
    case False
    then have "0 < n div 10" by simp
    with 1 False show ?thesis
      by (subst digits.simps) (simp add: digits_not_Nil)
  qed
qed

lemma nat_of_base_append:
  "nat_of_base b (xs @ ys) = nat_of_base b xs * b ^ length ys + nat_of_base b ys"
proof (induction ys rule: rev_induct)
  case Nil
  then show ?case by (simp add: nat_of_base_def)
next
  case (snoc y ys)
  have "nat_of_base b (xs @ ys @ [y]) = nat_of_base b ((xs @ ys) @ [y])" by simp
  also have "\<dots> = b * nat_of_base b (xs @ ys) + (case hex_val y of None \<Rightarrow> 0 | Some d \<Rightarrow> d)"
    by (rule nat_of_base_snoc)
  finally show ?case
    by (simp add: snoc nat_of_base_snoc algebra_simps)
qed

lemma hex_val_0: "hex_val (CHR ''0'') = Some 0"
  by (simp add: hex_val_def)

lemma nat_of_base_zeros: "nat_of_base b (replicate j (CHR ''0'')) = 0"
  by (induction j) (simp_all add: nat_of_base_def hex_val_0)

lemma nat_of_base_zero: "nat_of_base b ''0'' = 0"
  by (simp add: nat_of_base_def hex_val_0)

lemma norm_dec_canon: "m \<noteq> 0 \<Longrightarrow> m mod 10 \<noteq> 0 \<Longrightarrow> norm_dec m e = (m, e)"
  by (subst norm_dec.simps) simp

lemma norm_dec_pow: "m mod 10 \<noteq> 0 \<Longrightarrow> norm_dec (m * 10 ^ j) e = (m, e + int j)"
proof (induction j arbitrary: e)
  case 0
  then have "m \<noteq> 0" by auto
  with 0 show ?case by (simp add: norm_dec_canon)
next
  case (Suc j)
  from Suc.prems have nz: "m \<noteq> 0" by auto
  have "norm_dec (m * 10 ^ Suc j) e = norm_dec (m * 10 ^ j) (e + 1)"
    using nz by (subst norm_dec.simps) simp
  with Suc show ?case by simp
qed

lemma mod10_neg: "((- m) mod 10 = 0) = ((m::int) mod 10 = 0)"
  by (simp add: mod_eq_0_iff_dvd)

lemma div10_neg: "(m::int) mod 10 = 0 \<Longrightarrow> (- m) div 10 = - (m div 10)"
  by (simp add: mod_eq_0_iff_dvd dvd_neg_div)

lemma norm_dec_neg:
  "norm_dec (- m) e = (case norm_dec m e of (a, b) \<Rightarrow> (- a, b))"
proof (induction m e rule: norm_dec.induct)
  case (1 m e)
  show ?case
  proof (cases "m = 0")
    case True
    then show ?thesis by (simp add: norm_dec.simps)
  next
    case False
    show ?thesis
    proof (cases "m mod 10 = 0")
      case True
      then have d: "(- m) mod 10 = 0" "(- m) div 10 = - (m div 10)"
        by (simp_all add: mod10_neg div10_neg)
      have "norm_dec (- m) e = norm_dec (- (m div 10)) (e + 1)"
        using False d by (subst norm_dec.simps) simp
      also have "\<dots> = (case norm_dec (m div 10) (e + 1) of (a, b) \<Rightarrow> (- a, b))"
        using 1 False True by simp
      also have "norm_dec (m div 10) (e + 1) = norm_dec m e"
        using False True by (subst (2) norm_dec.simps) simp
      finally show ?thesis .
    next
      case nz: False
      then have "(- m) mod 10 \<noteq> 0" by (simp add: mod10_neg)
      with False nz show ?thesis by (simp add: norm_dec_canon)
    qed
  qed
qed
lemma takeWhile_digits:
  "\<forall>c \<in> set ds. is_digit c \<Longrightarrow> stops s \<Longrightarrow> takeWhile is_digit (ds @ s) = ds"
  by (cases s) (auto simp: stops_def takeWhile_append2)

lemma dropWhile_digits:
  "\<forall>c \<in> set ds. is_digit c \<Longrightarrow> stops s \<Longrightarrow> dropWhile is_digit (ds @ s) = s"
  by (cases s) (auto simp: stops_def dropWhile_append2)

lemma takeWhile_stops: "stops s \<Longrightarrow> takeWhile is_digit s = []"
  by (cases s) (auto simp: stops_def)

lemma dropWhile_stops: "stops s \<Longrightarrow> dropWhile is_digit s = s"
  by (cases s) (auto simp: stops_def)

lemma not_digit_dot: "\<not> is_digit (CHR ''.'')"
  by (simp add: is_digit_def)

lemma takeWhile_digits_dot:
  "\<forall>c \<in> set ds. is_digit c \<Longrightarrow> takeWhile is_digit (ds @ CHR ''.'' # s) = ds"
  by (simp add: takeWhile_append2 is_digit_def)

lemma scan_frac_none: "stops s \<Longrightarrow> scan_frac s = Some ([], s)"
  by (cases s) (auto simp: scan_frac_def stops_def)

lemma scan_frac_some:
  "fp \<noteq> [] \<Longrightarrow> \<forall>c \<in> set fp. is_digit c \<Longrightarrow> stops s \<Longrightarrow>
   scan_frac (CHR ''.'' # fp @ s) = Some (fp, s)"
  using takeWhile_digits [of fp s] dropWhile_digits [of fp s] by (simp add: scan_frac_def)

lemma not_minus_digit: "is_digit c \<Longrightarrow> c \<noteq> CHR ''-''"
  by (auto simp: is_digit_def)

text \<open>
  A literal put together from an integer part \<open>ip\<close>, a fraction \<open>fp\<close> (none when empty)
  and an exponent text \<open>et\<close> that reads as \<open>ex\<close>.
\<close>

lemma lex_number_parts:
  assumes ip: "ip \<noteq> []" "\<forall>c \<in> set ip. is_digit c" "hd ip = CHR ''0'' \<Longrightarrow> ip = ''0''"
    and fp: "\<forall>c \<in> set fp. is_digit c"
    and et: "scan_exp_strict (et @ rest) = Some (ex, rest)" "stops (et @ rest)"
    and sg: "(sg = 1 \<and> st = []) \<or> (sg = - 1 \<and> st = ''-'')"
  shows "lex_number (st @ ip @ (if fp = [] then [] else CHR ''.'' # fp) @ et @ rest) =
     Some (mk_fin (sg * int (nat_of_base 10 (ip @ fp))) (ex - int (length fp)), rest)"
proof -
  let ?tail = "(if fp = [] then [] else CHR ''.'' # fp) @ et @ rest"
  obtain c0 ip' where ipc: "ip = c0 # ip'" using ip(1) by (cases ip) auto
  have c0: "c0 \<noteq> CHR ''-''" using ip(2) ipc by (simp add: not_minus_digit)
  have m: "scan_minus (st @ ip @ ?tail) = (sg, ip @ ?tail)"
    using sg c0 by (auto simp: scan_minus_def ipc)
  have tw: "takeWhile is_digit (ip @ ?tail) = ip"
    using ip(2) et(2) takeWhile_digits [of ip "et @ rest"] takeWhile_digits_dot [of ip "fp @ et @ rest"]
    by simp
  have idg: "int_digits (ip @ ?tail) = ip"
  proof (cases "c0 = CHR ''0''")
    case True
    with ip(3) ipc have "ip' = []" by simp
    with True ipc show ?thesis by (simp add: int_digits_def)
  next
    case False
    have "int_digits (ip @ ?tail) = takeWhile is_digit (ip @ ?tail)"
      using False by (simp add: int_digits_def ipc)
    with tw show ?thesis by simp
  qed
  have fr: "scan_frac ?tail = Some (fp, et @ rest)"
    using fp et(2) by (simp add: scan_frac_none scan_frac_some)
  show ?thesis
    unfolding lex_number_def m
    using ip(1) by (simp add: idg fr et(1))
qed

lemma stops_delim: "delim rest \<Longrightarrow> stops rest"
  by (cases rest) (auto simp: delim_def stops_def is_digit_def)

lemma scan_exp_strict_delim: "delim rest \<Longrightarrow> scan_exp_strict rest = Some (0, rest)"
  by (cases rest) (auto simp: delim_def scan_exp_strict_def)

lemma scan_exp_strict_digits:
  assumes "delim rest"
  shows "scan_exp_strict (CHR ''e'' # (if x < 0 then ''-'' else ''+'') @ digits (nat \<bar>x\<bar>) @ rest)
         = Some (x, rest)"
proof -
  let ?ds = "digits (nat \<bar>x\<bar>)"
  have s: "stops rest" using assms by (rule stops_delim)
  have ss: "scan_sign ((if x < 0 then ''-'' else ''+'') @ ?ds @ rest) =
            (if x < 0 then - 1 else 1, ?ds @ rest)"
    by (simp add: scan_sign_def)
  have tw: "takeWhile is_digit (?ds @ rest) = ?ds" "dropWhile is_digit (?ds @ rest) = rest"
    using s takeWhile_digits [of ?ds rest] dropWhile_digits [of ?ds rest]
    by (simp_all add: digits_all_digit)
  show ?thesis
    unfolding scan_exp_strict_def
    by (simp add: ss tw digits_not_Nil nat_of_base_digits del: append.simps)
qed

lemma is_digit_0: "is_digit (CHR ''0'')"
  by (simp add: is_digit_def)

lemma pos_to_string_reads:
  assumes m: "0 < m" "m mod 10 \<noteq> 0" and rest: "delim rest"
    and sg: "(sg = 1 \<and> st = []) \<or> (sg = - 1 \<and> st = ''-'')"
  shows "lex_number (st @ pos_to_string m e @ rest) = Some (Fin (sg * m) e, rest)"
proof -
  define ds where "ds = digits (nat m)"
  define k where "k = int (length ds)"
  define n where "n = e + k"
  have dd: "\<forall>c \<in> set ds. is_digit c" and dn: "ds \<noteq> []"
    by (simp_all add: ds_def digits_all_digit digits_not_Nil)
  have dv: "int (nat_of_base 10 ds) = m" using m(1) by (simp add: ds_def nat_of_base_digits)
  have hd: "hd ds \<noteq> CHR ''0''" using m(1) by (simp add: ds_def hd_digits)
  have kpos: "0 < k" using dn by (simp add: k_def)
  have sr: "stops ([] @ rest)" using rest by (simp add: stops_delim)
  have e0: "scan_exp_strict ([] @ rest) = Some (0, rest)"
    using rest by (simp add: scan_exp_strict_delim)
  have sgm: "sg * m \<noteq> 0" "(sg * m) mod 10 \<noteq> 0"
    using sg m by (auto simp: mod10_neg)
  have fin: "mk_fin (sg * m) e = Fin (sg * m) e"
    using sgm by (simp add: mk_fin_def norm_dec_canon)
  have pts: "pos_to_string m e =
      (if k \<le> n \<and> n \<le> 21 then ds @ replicate (nat (n - k)) (CHR ''0'')
       else if 0 < n \<and> n \<le> 21 then take (nat n) ds @ ''.'' @ drop (nat n) ds
       else if - 6 < n \<and> n \<le> 0 then ''0.'' @ replicate (nat (- n)) (CHR ''0'') @ ds
       else (if k = 1 then ds else take 1 ds @ ''.'' @ drop 1 ds) @ ''e''
            @ (if n - 1 < 0 then ''-'' else ''+'') @ digits (nat \<bar>n - 1\<bar>))"
    unfolding pos_to_string_def Let_def ds_def k_def n_def ..
  consider (int) "k \<le> n" "n \<le> 21" | (frac) "\<not> k \<le> n" "0 < n" "n \<le> 21"
    | (small) "- 6 < n" "n \<le> 0" | (exp) "n \<le> - 6 \<or> 21 < n"
    by linarith
  then show ?thesis
  proof cases
    case int
    let ?z = "replicate (nat (n - k)) (CHR ''0'')"
    have t: "pos_to_string m e = ds @ ?z"
      unfolding pts using int by simp
    have c1: "ds @ ?z \<noteq> []" using dn by simp
    have c2: "\<forall>c \<in> set (ds @ ?z). is_digit c" using dd by (auto simp: is_digit_0)
    have c3: "hd (ds @ ?z) = CHR ''0'' \<Longrightarrow> ds @ ?z = ''0''" using hd dn by simp
    have c4: "\<forall>c \<in> set ([]::string). is_digit c" by simp
    have "lex_number (st @ (ds @ ?z) @ (if ([]::string) = [] then [] else CHR ''.'' # []) @ [] @ rest)
          = Some (mk_fin (sg * int (nat_of_base 10 ((ds @ ?z) @ []))) (0 - int (length ([]::string))), rest)"
      by (rule lex_number_parts [OF c1 c2 c3 c4 e0 sr sg])
    moreover have "int (nat_of_base 10 (ds @ ?z)) = m * 10 ^ nat (n - k)"
      using dv by (simp add: nat_of_base_append nat_of_base_zeros)
    moreover have "mk_fin (sg * (m * 10 ^ nat (n - k))) 0 = Fin (sg * m) e"
      using norm_dec_pow [OF sgm(2), of "nat (n - k)" 0] int
      by (simp add: mk_fin_def n_def mult.assoc)
    ultimately show ?thesis by (simp add: t)
  next
    case frac
    let ?ip = "take (nat n) ds" and ?fp = "drop (nat n) ds"
    have t: "pos_to_string m e = ?ip @ ''.'' @ ?fp"
      unfolding pts using frac by simp
    have fne: "?fp \<noteq> []" using frac by (simp add: k_def)
    have c1: "?ip \<noteq> []" using frac dn by simp
    have hip: "hd ?ip = hd ds" using frac dn by (cases ds) (auto simp: take_Cons')
    have c2: "\<forall>c \<in> set ?ip. is_digit c" using dd by (auto dest: in_set_takeD)
    have c3: "hd ?ip = CHR ''0'' \<Longrightarrow> ?ip = ''0''" using hd hip by simp
    have c4: "\<forall>c \<in> set ?fp. is_digit c" using dd by (auto dest: in_set_dropD)
    have "lex_number (st @ ?ip @ (if ?fp = [] then [] else CHR ''.'' # ?fp) @ [] @ rest)
          = Some (mk_fin (sg * int (nat_of_base 10 (?ip @ ?fp))) (0 - int (length ?fp)), rest)"
      by (rule lex_number_parts [OF c1 c2 c3 c4 e0 sr sg])
    moreover have "0 - int (length ?fp) = e" using frac by (simp add: n_def k_def)
    ultimately show ?thesis using fne dv fin by (simp add: t)
  next
    case small
    let ?z = "replicate (nat (- n)) (CHR ''0'')"
    have t: "pos_to_string m e = ''0.'' @ ?z @ ds"
      unfolding pts using small kpos by simp
    have c1: "''0'' \<noteq> []" by simp
    have c2: "\<forall>c \<in> set ''0''. is_digit c" by (simp add: is_digit_0)
    have c3: "hd ''0'' = CHR ''0'' \<Longrightarrow> ''0'' = ''0''" by simp
    have c4: "\<forall>c \<in> set (?z @ ds). is_digit c" using dd by (auto simp: is_digit_0)
    have "lex_number (st @ ''0'' @ (if ?z @ ds = [] then [] else CHR ''.'' # (?z @ ds)) @ [] @ rest)
          = Some (mk_fin (sg * int (nat_of_base 10 (''0'' @ (?z @ ds)))) (0 - int (length (?z @ ds))), rest)"
      by (rule lex_number_parts [OF c1 c2 c3 c4 e0 sr sg])
    moreover have "nat_of_base 10 (''0'' @ ?z @ ds) = nat_of_base 10 ds"
      using nat_of_base_append [of 10 "''0'' @ ?z" ds] nat_of_base_append [of 10 "''0''" ?z]
      by (simp add: nat_of_base_zeros nat_of_base_zero)
    moreover have "0 - int (length (?z @ ds)) = e" using small by (simp add: n_def k_def)
    ultimately show ?thesis using dn dv fin by (simp add: t)
  next
    case exp
    let ?ip = "take 1 ds" and ?fp = "drop 1 ds"
    let ?et = "CHR ''e'' # (if n - 1 < 0 then ''-'' else ''+'') @ digits (nat \<bar>n - 1\<bar>)"
    have t: "pos_to_string m e = ?ip @ (if ?fp = [] then [] else CHR ''.'' # ?fp) @ ?et"
      unfolding pts using exp kpos dn by (cases ds) (auto simp: k_def)
    have hip: "hd ?ip = hd ds" and c1: "?ip \<noteq> []" using dn by (cases ds; simp)+
    have c2: "\<forall>c \<in> set ?ip. is_digit c" using dd by (auto dest: in_set_takeD)
    have c3: "hd ?ip = CHR ''0'' \<Longrightarrow> ?ip = ''0''" using hd hip by simp
    have c4: "\<forall>c \<in> set ?fp. is_digit c" using dd by (auto dest: in_set_dropD)
    have ex: "scan_exp_strict (?et @ rest) = Some (n - 1, rest)"
      using scan_exp_strict_digits [OF rest, of "n - 1"] by simp
    have st: "stops (?et @ rest)" by (simp add: stops_def is_digit_def)
    have "lex_number (st @ ?ip @ (if ?fp = [] then [] else CHR ''.'' # ?fp) @ ?et @ rest)
          = Some (mk_fin (sg * int (nat_of_base 10 (?ip @ ?fp))) ((n - 1) - int (length ?fp)), rest)"
      by (rule lex_number_parts [OF c1 c2 c3 c4 ex st sg])
    moreover have "(n - 1) - int (length ?fp) = e" using dn by (cases ds) (auto simp: n_def k_def)
    ultimately show ?thesis using dv fin by (simp add: t)
  qed
qed

lemma num_to_string_reads:
  assumes "canon (Fin m e)" and "delim rest"
  shows "lex_number (num_to_string (Fin m e) @ rest) = Some (Fin m e, rest)"
proof (cases "m = 0")
  case True
  with assms(1) have e: "e = 0" by simp
  have "lex_number ([] @ ''0'' @ (if ([]::string) = [] then [] else CHR ''.'' # []) @ [] @ rest)
        = Some (mk_fin (1 * int (nat_of_base 10 (''0'' @ []))) (0 - int (length ([]::string))), rest)"
    using assms(2)
    by (intro lex_number_parts) (simp_all add: is_digit_0 stops_delim scan_exp_strict_delim)
  then show ?thesis
    using True e by (simp add: num_to_string.simps norm_dec.simps nat_of_base_zero mk_fin_def)
next
  case False
  with assms(1) have c: "m mod 10 \<noteq> 0" by simp
  have nd: "norm_dec m e = (m, e)" using False c by (rule norm_dec_canon)
  show ?thesis
  proof (cases "m < 0")
    case True
    have "(- m) mod 10 \<noteq> 0" using c by (simp add: mod10_neg)
    from pos_to_string_reads [OF _ this assms(2), of "- 1" "''-''" e] True
    show ?thesis using False by (simp add: num_to_string.simps nd)
  next
    case pos: False
    from pos_to_string_reads [OF _ c assms(2), of 1 "[]" e] pos False
    show ?thesis by (simp add: num_to_string.simps nd)
  qed
qed
section \<open>What \<open>restoreData\<close> writes\<close>

lemma next_outcome_cases:
  assumes "next_outcome w = (x, w1)"
  shows "trace w1 = trace w" and "set (outcomes w1) \<subseteq> set (outcomes w)"
    and "x \<noteq> Resolves \<Longrightarrow> x \<in> set (outcomes w)"
  using assms by (auto simp: next_outcome_def split: list.splits)

lemma addDoc_cases:
  assumes "addDoc w d = (x, w1)"
  shows "set (outcomes w1) \<subseteq> set (outcomes w)"
    and "x = Throws \<Longrightarrow> trace w1 = trace w \<and> Throws \<in> set (outcomes w)"
    and "x \<noteq> Throws \<Longrightarrow> trace w1 = trace w @ [Add d]"
proof -
  obtain y w0 where n: "next_outcome w = (y, w0)" by fastforce
  from assms n have x: "x = y" by (cases y) (auto simp: addDoc_def)
  show "set (outcomes w1) \<subseteq> set (outcomes w)"
    using assms n next_outcome_cases(2) [OF n] by (cases y) (auto simp: addDoc_def)
  show "x = Throws \<Longrightarrow> trace w1 = trace w \<and> Throws \<in> set (outcomes w)"
    using assms n x next_outcome_cases(1,3) [OF n] by (cases y) (auto simp: addDoc_def)
  show "x \<noteq> Throws \<Longrightarrow> trace w1 = trace w @ [Add d]"
    using assms n x next_outcome_cases(1) [OF n] by (cases y) (auto simp: addDoc_def)
qed






lemma accepted_members: "accepted c = required_fields (members c)"
  by (cases c) (simp_all add: accepted_def required_fields_def get_prop_def)


lemma record_of_restored:
  "parseFloat (get_prop (members c) ''pontuacao'') = Inr n \<Longrightarrow>
   record_of c (restored_record (members c) n now)"
  by (simp add: record_of_def restored_record_def get_prop_def)

text \<open>
  One step of the loop: it ends the loop with nothing written, or skips an element that
  is not accepted, or writes the record of an accepted element and goes on.
\<close>

lemma restore_loop_step:
  assumes "restore_loop (c # xs) w ok = (r, w')"
  shows "(w' = w \<or> trace w' = trace w)
           \<and> (nullish c \<or> (accepted c \<and> (\<nexists>n. parseFloat (get_prop (members c) ''pontuacao'') = Inr n))
                \<or> (accepted c \<and> Throws \<in> set (outcomes w)))
       \<or> (\<not> accepted c \<and> \<not> nullish c \<and> restore_loop xs w ok = (r, w'))
       \<or> (\<exists>d w2 ok'. accepted c \<and> record_of c d \<and> trace w2 = trace w @ [Add d]
             \<and> set (outcomes w2) \<subseteq> set (outcomes w) \<and> restore_loop xs w2 ok' = (r, w'))"
proof (cases "member_of c ''nome''")
  case (Inl e)
  then have "nullish c" by (cases c) simp_all
  with assms Inl show ?thesis by simp
next
  case (Inr nome)
  then have nn: "\<not> nullish c" by (cases c) simp_all
  show ?thesis
  proof (cases "accepted c")
    case False
    with assms Inr nn show ?thesis by (simp add: accepted_members)
  next
    case True
    then have rf: "required_fields (members c)" by (simp add: accepted_members)
    show ?thesis
    proof (cases "parseFloat (get_prop (members c) ''pontuacao'')")
      case (Inl e)
      with assms Inr rf True show ?thesis by simp
    next
      case pf: (Inr n)
      obtain now w1 where n: "(if truthy (get_prop (members c) ''timestamp'') then ([], w)
                   else new_date w) = (now, w1)" by fastforce
      then have w1: "trace w1 = trace w" "outcomes w1 = outcomes w"
        by (auto simp: new_date_def split: if_splits)
      obtain x w2 where a: "addDoc w1 (restored_record (members c) n now) = (x, w2)"
        by fastforce
      have step: "restore_loop (c # xs) w ok =
        (case x of Throws \<Rightarrow> (False, w2) | Rejects \<Rightarrow> restore_loop xs w2 False
         | Resolves \<Rightarrow> restore_loop xs w2 ok)"
        using Inr rf pf n a by simp
      show ?thesis
      proof (cases "x = Throws")
        case True
        with step assms have "w' = w2" by simp
        with addDoc_cases(2) [OF a True] w1 \<open>accepted c\<close> show ?thesis by simp
      next
        case False
        from addDoc_cases(1,3) [OF a] False w1 have
          t: "trace w2 = trace w @ [Add (restored_record (members c) n now)]"
             "set (outcomes w2) \<subseteq> set (outcomes w)" by simp_all
        from step assms False obtain ok' where "restore_loop xs w2 ok' = (r, w')"
          by (cases x) auto
        with t \<open>accepted c\<close> record_of_restored [OF pf] show ?thesis by blast
      qed
    qed
  qed
qed


lemma restore_loop_all:
  "restore_loop xs w ok = (r, w') \<Longrightarrow> Throws \<notin> set (outcomes w) \<Longrightarrow>
   \<forall>x \<in> set xs. \<not> nullish x
      \<and> (accepted x \<longrightarrow> (\<exists>n. parseFloat (get_prop (members x) ''pontuacao'') = Inr n)) \<Longrightarrow>
   \<exists>evs. trace w' = trace w @ evs
     \<and> list_all2 (\<lambda>d c. record_of c d) (adds_of evs) (filter accepted xs)"
proof (induction xs arbitrary: w ok)
  case Nil
  then show ?case by (auto simp: adds_of_def)
next
  case (Cons c xs)
  from restore_loop_step [OF Cons.prems(1)] Cons.prems(2,3)
  consider (skip) "\<not> accepted c" "restore_loop xs w ok = (r, w')"
    | (wrote) d w2 ok' where "accepted c" "record_of c d" "trace w2 = trace w @ [Add d]"
        "set (outcomes w2) \<subseteq> set (outcomes w)" "restore_loop xs w2 ok' = (r, w')"
    by (auto simp del: restore_loop.simps)
  then show ?case
  proof cases
    case skip
    from Cons.IH [OF skip(2) Cons.prems(2)] Cons.prems(3) skip(1) show ?thesis by simp
  next
    case wrote
    have "Throws \<notin> set (outcomes w2)" using wrote(4) Cons.prems(2) by auto
    from Cons.IH [OF wrote(5) this] Cons.prems(3) obtain evs where
      "trace w' = trace w2 @ evs"
      "list_all2 (\<lambda>d c. record_of c d) (adds_of evs) (filter accepted xs)"
      by auto
    with wrote(1-3) have "trace w' = trace w @ (Add d # evs) \<and>
      list_all2 (\<lambda>d c. record_of c d) (adds_of (Add d # evs)) (filter accepted (c # xs))"
      by (simp add: adds_of_def)
    then show ?thesis by blast
  qed
qed

section \<open>\<^verbatim>\<open>parseFloat\<close> of a decimal numeral\<close>












section \<open>Strings: quoting and reading back\<close>

lemma hex_val_hex_digit:
  assumes "d < 16"
  shows "hex_val (hex_digit d) = Some d"
proof -
  have "\<forall>d \<in> set [0 ..< 16]. hex_val (hex_digit d) = Some d"
    by code_simp
  with assms show ?thesis by simp
qed

lemma hex4_control:
  assumes "v < 32"
  shows "hex4 (CHR ''0'' # CHR ''0'' # hex_digit (v div 16) # hex_digit (v mod 16) # t) = Some v"
proof -
  have a: "hex_val (hex_digit (v div 16)) = Some (v div 16)"
    using assms by (intro hex_val_hex_digit) simp
  have b: "hex_val (hex_digit (v mod 16)) = Some (v mod 16)"
    by (intro hex_val_hex_digit) simp
  show ?thesis
    by (simp add: hex4_def nat_of_base_def a b hex_val_0)
qed

lemma unicode_escape_control:
  assumes "v < 32"
  shows "unicode_escape (CHR ''0'' # CHR ''0'' # hex_digit (v div 16) # hex_digit (v mod 16) # t)
         = Some (v, 4)"
  using assms by (simp add: unicode_escape_def hex4_control)

lemma utf8_encode_ascii: "of_char c < (32::nat) \<Longrightarrow> utf8_encode (of_char c) = [c]"
  by (simp add: utf8_encode_def)

lemma lex_string_quote_char:
  "lex_string (quote_char c @ t) = map_option (\<lambda>(s, r). (c # s, r)) (lex_string t)"
proof -
  consider (quote) "c = CHR 0x22" | (bs) "c = CHR 0x5C" | (b) "c = CHR 0x08" | (t) "c = CHR 0x09"
    | (n) "c = CHR 0x0A" | (f) "c = CHR 0x0C" | (r) "c = CHR 0x0D"
    | (ctl) "c \<notin> {CHR 0x22, CHR 0x5C, CHR 0x08, CHR 0x09, CHR 0x0A, CHR 0x0C, CHR 0x0D}"
            "of_char c < (32::nat)"
    | (plain) "c \<notin> {CHR 0x22, CHR 0x5C}" "\<not> of_char c < (32::nat)"
    by (cases "of_char c < (32::nat)") auto
  then show ?thesis
  proof cases
    case ctl
    have q: "quote_char c = [CHR 0x5C, CHR ''u'', CHR ''0'', CHR ''0'',
         hex_digit (of_char c div 16), hex_digit (of_char c mod 16)]"
      using ctl by (simp add: quote_char_def)
    show ?thesis
      unfolding q using ctl(2)
      by (simp add: unicode_escape_control utf8_encode_ascii)
  next
    case plain
    then have q: "quote_char c = [c]"
      by (auto simp: quote_char_def)
    show ?thesis unfolding q using plain by simp
  qed (simp_all add: quote_char_def simple_escape_def)
qed

lemma lex_string_quoted:
  "lex_string (concat (map quote_char s) @ CHR 0x22 # rest) = Some (s, rest)"
proof (induction s)
  case Nil
  show ?case by simp
next
  case (Cons c s)
  have "lex_string (concat (map quote_char (c # s)) @ CHR 0x22 # rest) =
        lex_string (quote_char c @ (concat (map quote_char s) @ CHR 0x22 # rest))"
    by simp
  also have "\<dots> = Some (c # s, rest)"
    unfolding lex_string_quote_char using Cons by simp
  finally show ?case .
qed
section \<open>Reading the tokens of a value\<close>

lemma run_append: "run s (ts @ us) = (case run s ts of None \<Rightarrow> None | Some s' \<Rightarrow> run s' us)"
  by (induction ts arbitrary: s) (auto split: option.splits)

lemma define_prop_fresh: "k \<notin> fst ` set ms \<Longrightarrow> define_prop ms k v = ms @ [(k, v)]"
  by (induction ms) auto

lemma parses_scalar:
  "v \<in> {JUndefined, JNull} \<union> range JBool \<union> range JNum \<Longrightarrow> parses [TLit v] v"
  by (auto simp: parses_def)

lemma parses_string: "parses [TStr s] (JStr s)"
  by (simp add: parses_def)

text \<open>The elements behind the first, up to the closing bracket.\<close>

lemma run_elements:
  assumes "\<forall>x \<in> set xs. parses (toks x) x" and "xs \<noteq> []"
  shows "run (SVal (FArr es # st)) (join [TComma] (map toks xs) @ TRBrack # us) =
         run (deliver (JArr (es @ xs)) st) us"
  using assms
proof (induction xs arbitrary: es)
  case Nil
  then show ?case by simp
next
  case (Cons x xs)
  have px: "\<And>us. run (SVal (FArr es # st)) (toks x @ us) = run (SArrN (es @ [x]) st) us"
    using Cons.prems(1) by (simp add: parses_def)
  show ?case
  proof (cases xs)
    case Nil
    then show ?thesis using px [of "TRBrack # us"] by simp
  next
    case (Cons y ys)
    have "run (SVal (FArr es # st)) (join [TComma] (map toks (x # xs)) @ TRBrack # us) =
          run (SVal (FArr es # st)) (toks x @ TComma # join [TComma] (map toks xs) @ TRBrack # us)"
      using Cons by simp
    also have "\<dots> = run (SVal (FArr (es @ [x]) # st)) (join [TComma] (map toks xs) @ TRBrack # us)"
      unfolding px by simp
    also have "\<dots> = run (deliver (JArr ((es @ [x]) @ xs)) st) us"
      using Cons.prems Cons by (intro Cons.IH) simp_all
    finally show ?thesis by simp
  qed
qed

lemma toks_not_Nil: "toks v \<noteq> []"
  by (cases v) simp_all

lemma toks_not_close: "hd (toks v) \<noteq> TRBrack"
  by (cases v) simp_all

lemma step_SArr0: "t \<noteq> TRBrack \<Longrightarrow> step (SArr0 st) t = step (SVal (FArr [] # st)) t"
  by simp

lemma parses_array:
  assumes "\<forall>x \<in> set xs. parses (toks x) x"
  shows "parses (toks (JArr xs)) (JArr xs)"
proof (cases xs)
  case Nil
  then show ?thesis by (simp add: parses_def)
next
  case (Cons x xs')
  obtain t ts where t: "toks x = t # ts" "t \<noteq> TRBrack"
    using toks_not_Nil [of x] toks_not_close [of x] by (cases "toks x") auto
  have j: "\<And>us. join [TComma] (map toks xs) @ TRBrack # us =
           t # (tl (join [TComma] (map toks xs)) @ TRBrack # us)"
    using Cons t by (cases xs') simp_all
  show ?thesis
    unfolding parses_def
  proof (intro allI)
    fix st us
    have "run (SVal st) (toks (JArr xs) @ us) =
          run (SArr0 st) (join [TComma] (map toks xs) @ TRBrack # us)"
      by simp
    also have "\<dots> = run (SVal (FArr [] # st)) (join [TComma] (map toks xs) @ TRBrack # us)"
      unfolding j using t(2) by simp
    also have "\<dots> = run (deliver (JArr ([] @ xs)) st) us"
      using assms Cons by (intro run_elements) simp_all
    finally show "run (SVal st) (toks (JArr xs) @ us) = run (deliver (JArr xs) st) us"
      by simp
  qed
qed

text \<open>The members from a key on, up to the closing brace.\<close>

lemma run_members:
  assumes "\<forall>m \<in> set ms. parses (toks (snd m)) (snd m)" and "ms \<noteq> []"
    and "distinct (map fst (ms0 @ ms))"
  shows "run (SKey ms0 st)
           (join [TComma] (map (\<lambda>m. TStr (fst m) # TColon # toks (snd m)) ms) @ TRBrace # us) =
         run (deliver (JObj (ms0 @ ms)) st) us"
  using assms
proof (induction ms arbitrary: ms0)
  case Nil
  then show ?case by simp
next
  case (Cons m ms)
  obtain k v where m: "m = (k, v)" by (cases m)
  have fresh: "k \<notin> fst ` set ms0" using Cons.prems(3) m by auto
  have pm: "\<And>us. run (SKey ms0 st) (TStr k # TColon # toks v @ us) =
                     run (SObjN (ms0 @ [(k, v)]) st) us"
    using Cons.prems(1) m fresh by (simp add: parses_def define_prop_fresh)
  show ?case
  proof (cases ms)
    case Nil
    then show ?thesis using pm [of "TRBrace # us"] m by simp
  next
    case (Cons m' ms')
    let ?f = "\<lambda>m. TStr (fst m) # TColon # toks (snd m)"
    have "run (SKey ms0 st) (join [TComma] (map ?f (m # ms)) @ TRBrace # us) =
          run (SKey ms0 st) (TStr k # TColon # toks v @ TComma # join [TComma] (map ?f ms) @ TRBrace # us)"
      using Cons m by simp
    also have "\<dots> = run (SKey (ms0 @ [(k, v)]) st) (join [TComma] (map ?f ms) @ TRBrace # us)"
      unfolding pm by simp
    also have "\<dots> = run (deliver (JObj ((ms0 @ [(k, v)]) @ ms)) st) us"
      using Cons.prems Cons m by (intro Cons.IH) simp_all
    finally show ?thesis using m by simp
  qed
qed

lemma parses_object:
  assumes "\<forall>m \<in> set ms. parses (toks (snd m)) (snd m)" and "distinct (map fst ms)"
  shows "parses (toks (JObj ms)) (JObj ms)"
proof (cases ms)
  case Nil
  then show ?thesis by (simp add: parses_def)
next
  case (Cons m ms')
  let ?f = "\<lambda>m. TStr (fst m) # TColon # toks (snd m)"
  have j: "\<And>us. join [TComma] (map ?f ms) @ TRBrace # us =
           TStr (fst m) # (tl (join [TComma] (map ?f ms)) @ TRBrace # us)"
    using Cons by (cases ms') simp_all
  show ?thesis
    unfolding parses_def
  proof (intro allI)
    fix st us
    have "run (SVal st) (toks (JObj ms) @ us) =
          run (SObj0 st) (join [TComma] (map ?f ms) @ TRBrace # us)"
      by simp
    also have "\<dots> = run (SKey [] st) (join [TComma] (map ?f ms) @ TRBrace # us)"
      unfolding j by simp
    also have "\<dots> = run (deliver (JObj ([] @ ms)) st) us"
      using assms Cons by (intro run_members) simp_all
    finally show "run (SVal st) (toks (JObj ms) @ us) = run (deliver (JObj ms) st) us"
      by simp
  qed
qed

lemma parses_toks: "json_safe v \<Longrightarrow> parses (toks v) v"
proof (induction v)
  case (JArr xs)
  then show ?case by (intro parses_array) (simp add: list_all_iff)
next
  case (JObj ms)
  have "\<forall>m \<in> set ms. parses (toks (snd m)) (snd m)"
  proof
    fix m assume m: "m \<in> set ms"
    then have "json_safe (snd m)" using JObj.prems by (simp add: list_all_iff)
    moreover have "snd m \<in> Basic_BNFs.snds m" by (cases m) simp
    ultimately show "parses (toks (snd m)) (snd m)" using JObj.IH m by blast
  qed
  with JObj.prems show ?case by (intro parses_object) simp_all
qed (simp_all add: parses_def)
section \<open>Reading the text of a value\<close>

lemma lex_blank: "blank w \<Longrightarrow> lex (w @ s) = lex s"
  by (induction w) (simp_all add: blank_def lex.simps)

lemma lex_punct:
  "lex (CHR ''['' # s) = map_option (Cons TLBrack) (lex s)"
  "lex (CHR '']'' # s) = map_option (Cons TRBrack) (lex s)"
  "lex (CHR ''{'' # s) = map_option (Cons TLBrace) (lex s)"
  "lex (CHR ''}'' # s) = map_option (Cons TRBrace) (lex s)"
  "lex (CHR '','' # s) = map_option (Cons TComma) (lex s)"
  "lex (CHR '':'' # s) = map_option (Cons TColon) (lex s)"
  by (simp_all add: lex.simps json_ws_def punct_def)

lemma lex_quote: "lex (quote k @ s) = map_option (Cons (TStr k)) (lex s)"
  by (simp add: quote_def lex.simps json_ws_def punct_def lex_string_quoted)

lemma lex_number_head:
  assumes "lex_number t = Some x"
  shows "\<exists>c cs. t = c # cs \<and> (c = CHR ''-'' \<or> is_digit c)"
proof -
  obtain sg s1 where m: "scan_minus t = (sg, s1)" by fastforce
  from assms m have ne: "int_digits s1 \<noteq> []"
    by (auto simp: lex_number_def split: if_splits)
  then obtain c r where s1: "s1 = c # r" by (cases s1) (auto simp: int_digits_def)
  have d: "is_digit c"
  proof (cases "c = CHR ''0''")
    case True
    then show ?thesis by (simp add: is_digit_0)
  next
    case False
    with ne s1 show ?thesis
      by (auto simp: int_digits_def split: if_splits)
  qed
  from m s1 d show ?thesis
    by (cases t) (auto simp: scan_minus_def split: if_splits)
qed

lemma number_head_plain:
  assumes "c = CHR ''-'' \<or> is_digit c"
  shows "\<not> json_ws c \<and> punct c = None \<and> c \<noteq> CHR 0x22"
proof -
  have "\<forall>c \<in> set ''-0123456789''. \<not> json_ws c \<and> punct c = None \<and> c \<noteq> CHR 0x22"
    by code_simp
  moreover have "c \<in> set ''-0123456789''" using assms by (auto simp: is_digit_def)
  ultimately show ?thesis by blast
qed

lemma lexes_num:
  assumes "finite_num n" and "canon n"
  shows "lexes (num_to_string n) [TLit (JNum n)]"
  unfolding lexes_def
proof (intro allI impI)
  fix rest assume d: "delim rest"
  obtain m e where n: "n = Fin m e" using assms(1) by (cases n) auto
  have r: "lex_number (num_to_string n @ rest) = Some (n, rest)"
    using assms(2) d unfolding n by (rule num_to_string_reads)
  from lex_number_head [OF r] obtain c cs where
    c: "num_to_string n @ rest = c # cs" "c = CHR ''-'' \<or> is_digit c" by blast
  from number_head_plain [OF c(2)] c(2) r show
    "lex (num_to_string n @ rest) = map_option (\<lambda>us. [TLit (JNum n)] @ us) (lex rest)"
    unfolding c(1) by (simp add: lex.simps)
qed

lemma lexes_keyword:
  "lexes ''null'' [TLit JNull]" "lexes ''true'' [TLit (JBool True)]"
  "lexes ''false'' [TLit (JBool False)]"
  by (simp_all add: lexes_def lex.simps json_ws_def punct_def keyword_def is_digit_def)

lemma lexes_quote: "lexes (quote s) [TStr s]"
  by (simp add: lexes_def lex_quote)

lemma delim_comma: "delim (CHR '','' # s)"
  by (simp add: delim_def)

lemma lexes_join:
  assumes "list_all2 lexes texts tokss" and "texts \<noteq> []" and "blank w"
  shows "lexes (join (CHR '','' # w) texts) (join [TComma] tokss)"
  using assms(1,2)
proof (induction texts tokss rule: list_all2_induct)
  case Nil
  then show ?case by simp
next
  case (Cons t texts ts tokss)
  show ?case
  proof (cases texts)
    case Nil
    with Cons show ?thesis by simp
  next
    case c: (Cons t' texts')
    then obtain ts' tokss' where tk: "tokss = ts' # tokss'"
      using Cons.hyps(2) by (cases tokss) auto
    have ih: "lexes (join (CHR '','' # w) texts) (join [TComma] tokss)"
      using Cons.IH c by simp
    show ?thesis
      unfolding lexes_def
    proof (intro allI impI)
      fix rest assume d: "delim rest"
      let ?J = "join (CHR '','' # w) texts"
      have "lex (join (CHR '','' # w) (t # texts) @ rest) = lex (t @ CHR '','' # (w @ ?J @ rest))"
        using c by simp
      also have "\<dots> = map_option (\<lambda>us. ts @ us) (lex (CHR '','' # (w @ ?J @ rest)))"
        using Cons.hyps(1) delim_comma by (simp add: lexes_def)
      also have "lex (CHR '','' # (w @ ?J @ rest)) = map_option (Cons TComma) (lex (?J @ rest))"
        using assms(3) by (simp add: lex_punct lex_blank)
      also have "lex (?J @ rest) = map_option (\<lambda>us. (join [TComma] tokss) @ us) (lex rest)"
        using ih d by (simp add: lexes_def)
      finally show "lex (join (CHR '','' # w) (t # texts) @ rest) =
                    map_option (\<lambda>us. (join [TComma] (ts # tokss)) @ us) (lex rest)"
        using tk by (simp add: option.map_comp o_def)
    qed
  qed
qed

lemma delim_close:
  assumes "blank w1" and "w1 = [] \<or> hd w1 = CHR 0x0A" and "c = CHR '']'' \<or> c = CHR ''}''"
  shows "delim (w1 @ c # s)"
  using assms by (cases w1) (auto simp: delim_def)

lemma lexes_array:
  assumes "lexes body ts" and "blank w0" and "blank w1" and "w1 = [] \<or> hd w1 = CHR 0x0A"
  shows "lexes (CHR ''['' # w0 @ body @ w1 @ '']'') (TLBrack # ts @ [TRBrack])"
  unfolding lexes_def
proof (intro allI impI)
  fix rest assume "delim rest"
  have d: "delim (w1 @ CHR '']'' # rest)" using assms(3,4) by (intro delim_close) simp_all
  have "lex ((CHR ''['' # w0 @ body @ w1 @ '']'') @ rest) =
        map_option (Cons TLBrack) (lex (body @ (w1 @ CHR '']'' # rest)))"
    using assms(2) lex_blank [of w0 "body @ w1 @ CHR '']'' # rest"] by (simp add: lex_punct)
  also have "lex (body @ (w1 @ CHR '']'' # rest)) = map_option (\<lambda>us. ts @ us) (lex (w1 @ CHR '']'' # rest))"
    using assms(1) d by (simp add: lexes_def)
  also have "lex (w1 @ CHR '']'' # rest) = map_option (Cons TRBrack) (lex rest)"
    using assms(3) by (simp add: lex_blank lex_punct)
  finally show "lex ((CHR ''['' # w0 @ body @ w1 @ '']'') @ rest) =
                map_option (\<lambda>us. (TLBrack # ts @ [TRBrack]) @ us) (lex rest)"
    by (simp add: option.map_comp o_def)
qed

lemma lexes_object:
  assumes "lexes body ts" and "blank w0" and "blank w1" and "w1 = [] \<or> hd w1 = CHR 0x0A"
  shows "lexes (CHR ''{'' # w0 @ body @ w1 @ ''}'') (TLBrace # ts @ [TRBrace])"
  unfolding lexes_def
proof (intro allI impI)
  fix rest assume "delim rest"
  have d: "delim (w1 @ CHR ''}'' # rest)" using assms(3,4) by (intro delim_close) simp_all
  have "lex ((CHR ''{'' # w0 @ body @ w1 @ ''}'') @ rest) =
        map_option (Cons TLBrace) (lex (body @ (w1 @ CHR ''}'' # rest)))"
    using assms(2) lex_blank [of w0 "body @ w1 @ CHR ''}'' # rest"] by (simp add: lex_punct)
  also have "lex (body @ (w1 @ CHR ''}'' # rest)) = map_option (\<lambda>us. ts @ us) (lex (w1 @ CHR ''}'' # rest))"
    using assms(1) d by (simp add: lexes_def)
  also have "lex (w1 @ CHR ''}'' # rest) = map_option (Cons TRBrace) (lex rest)"
    using assms(3) by (simp add: lex_blank lex_punct)
  finally show "lex ((CHR ''{'' # w0 @ body @ w1 @ ''}'') @ rest) =
                map_option (\<lambda>us. (TLBrace # ts @ [TRBrace]) @ us) (lex rest)"
    by (simp add: option.map_comp o_def)
qed

lemma lexes_empty: "lexes ''[]'' [TLBrack, TRBrack]" "lexes ''{}'' [TLBrace, TRBrace]"
  by (simp_all add: lexes_def lex_punct option.map_comp o_def)

lemma lexes_member:
  assumes "lexes t ts" and "blank sp"
  shows "lexes (quote k @ '':'' @ sp @ t) (TStr k # TColon # ts)"
  unfolding lexes_def
proof (intro allI impI)
  fix rest assume d: "delim rest"
  have "lex ((quote k @ '':'' @ sp @ t) @ rest) =
        map_option (Cons (TStr k)) (map_option (Cons TColon) (lex (t @ rest)))"
    using assms(2) lex_blank [of sp "t @ rest"] by (simp add: lex_quote lex_punct)
  also have "lex (t @ rest) = map_option (\<lambda>us. ts @ us) (lex rest)"
    using assms(1) d by (simp add: lexes_def)
  finally show "lex ((quote k @ '':'' @ sp @ t) @ rest) =
                map_option (\<lambda>us. (TStr k # TColon # ts) @ us) (lex rest)"
    by (simp add: option.map_comp o_def)
qed
lemma blank_append: "blank (a @ b) = (blank a \<and> blank b)"
  by (auto simp: blank_def)

lemma blank_lf: "blank (CHR 0x0A # s) = blank s"
  by (simp add: blank_def json_ws_def)

lemma blank_Nil: "blank []"
  by (simp add: blank_def)

lemma blank_space: "blank '' ''"
  by (simp add: blank_def json_ws_def)

lemma ser_array_text:
  assumes "xs \<noteq> []"
  shows "ser gap ind (JArr xs) =
     Some (CHR ''['' # (if gap = [] then [] else CHR 0x0A # ind @ gap)
           @ join (CHR '','' # (if gap = [] then [] else CHR 0x0A # ind @ gap))
               (map (\<lambda>x. case ser gap (ind @ gap) x of None \<Rightarrow> ''null'' | Some s \<Rightarrow> s) xs)
           @ (if gap = [] then [] else CHR 0x0A # ind) @ '']'')"
  using assms by (simp add: Let_def)

lemma ser_object_text:
  assumes "ms \<noteq> []"
    and "\<forall>m \<in> set ms. ser gap (ind @ gap) (snd m) \<noteq> None"
  shows "ser gap ind (JObj ms) =
     Some (CHR ''{'' # (if gap = [] then [] else CHR 0x0A # ind @ gap)
           @ join (CHR '','' # (if gap = [] then [] else CHR 0x0A # ind @ gap))
               (map (\<lambda>m. quote (fst m) @ '':'' @ (if gap = [] then [] else '' '')
                           @ the (ser gap (ind @ gap) (snd m))) ms)
           @ (if gap = [] then [] else CHR 0x0A # ind) @ ''}'')"
proof -
  let ?f = "\<lambda>(k, v). case ser gap (ind @ gap) v of
                None \<Rightarrow> []
              | Some s \<Rightarrow> [quote k @ '':'' @ (if gap = [] then [] else '' '') @ s]"
  let ?g = "\<lambda>m. quote (fst m) @ '':'' @ (if gap = [] then [] else '' '')
                           @ the (ser gap (ind @ gap) (snd m))"
  have "map ?f ms = map (\<lambda>m. [?g m]) ms"
    using assms(2) by (intro map_cong) (auto split: option.splits)
  then have "concat (map ?f ms) = concat (map (\<lambda>m. [?g m]) ms)"
    by (simp only:)
  also have "\<dots> = map ?g ms"
    by (rule concat_map_singleton)
  finally have parts: "concat (map ?f ms) = map ?g ms" .
  have ne: "map ?g ms \<noteq> []" using assms(1) by simp
  show ?thesis
    apply (subst ser.simps)
    unfolding Let_def parts
    using ne by simp
qed

lemma ser_lexes:
  "json_safe v \<Longrightarrow> blank gap \<Longrightarrow> blank ind \<Longrightarrow>
   \<exists>t. ser gap ind v = Some t \<and> lexes t (toks v)"
proof (induction v arbitrary: ind)
  case JUndefined
  then show ?case by simp
next
  case JNull
  then show ?case by (simp add: lexes_keyword)
next
  case (JBool b)
  then show ?case by (cases b) (simp_all add: lexes_keyword)
next
  case (JNum n)
  then show ?case by (simp add: lexes_num)
next
  case (JStr s)
  then show ?case by (simp add: lexes_quote)
next
  case (JArr xs)
  let ?w = "if gap = [] then [] else CHR 0x0A # ind @ gap"
  let ?w1 = "if gap = [] then [] else CHR 0x0A # ind"
  let ?text = "\<lambda>x. case ser gap (ind @ gap) x of None \<Rightarrow> ''null'' | Some s \<Rightarrow> s"
  show ?case
  proof (cases "xs = []")
    case True
    then show ?thesis by (simp add: lexes_empty)
  next
    case False
    have bw: "blank ?w" "blank ?w1" "?w1 = [] \<or> hd ?w1 = CHR 0x0A"
      using JArr.prems by (simp_all add: blank_append blank_lf blank_Nil)
    have each: "\<forall>x \<in> set xs. lexes (?text x) (toks x)"
    proof
      fix x assume x: "x \<in> set xs"
      then have "json_safe x" using JArr.prems(1) by (simp add: list_all_iff)
      from JArr.IH [OF x this JArr.prems(2), of "ind @ gap"] JArr.prems
      show "lexes (?text x) (toks x)" by (auto simp: blank_append)
    qed
    then have "list_all2 lexes (map ?text xs) (map toks xs)"
      by (simp add: list_all2_map1 list_all2_map2 list_all2_same)
    then have "lexes (join (CHR '','' # ?w) (map ?text xs)) (join [TComma] (map toks xs))"
      using False bw(1) by (intro lexes_join) simp_all
    then have "lexes (CHR ''['' # ?w @ join (CHR '','' # ?w) (map ?text xs) @ ?w1 @ '']'')
                     (TLBrack # join [TComma] (map toks xs) @ [TRBrack])"
      using bw by (intro lexes_array)
    then show ?thesis
      unfolding ser_array_text [OF False] by simp
  qed
next
  case (JObj ms)
  let ?w = "if gap = [] then [] else CHR 0x0A # ind @ gap"
  let ?w1 = "if gap = [] then [] else CHR 0x0A # ind"
  let ?sp = "if gap = [] then [] else '' ''"
  let ?text = "\<lambda>m. quote (fst m) @ '':'' @ ?sp @ the (ser gap (ind @ gap) (snd m))"
  let ?toks = "\<lambda>m. TStr (fst m) # TColon # toks (snd m)"
  show ?case
  proof (cases "ms = []")
    case True
    then show ?thesis by (simp add: lexes_empty)
  next
    case False
    have bw: "blank ?w" "blank ?w1" "?w1 = [] \<or> hd ?w1 = CHR 0x0A" "blank ?sp"
      using JObj.prems by (simp_all add: blank_append blank_lf blank_Nil blank_space)
    have each: "\<forall>m \<in> set ms. \<exists>t. ser gap (ind @ gap) (snd m) = Some t \<and> lexes t (toks (snd m))"
    proof
      fix m assume m: "m \<in> set ms"
      then have s: "json_safe (snd m)" using JObj.prems(1) by (simp add: list_all_iff)
      have "snd m \<in> Basic_BNFs.snds m" by (cases m) simp
      from JObj.IH [OF m this s JObj.prems(2), of "ind @ gap"] JObj.prems
      show "\<exists>t. ser gap (ind @ gap) (snd m) = Some t \<and> lexes t (toks (snd m))"
        by (auto simp: blank_append)
    qed
    then have some: "\<forall>m \<in> set ms. ser gap (ind @ gap) (snd m) \<noteq> None" by auto
    have "\<forall>m \<in> set ms. lexes (?text m) (?toks m)"
    proof
      fix m assume "m \<in> set ms"
      with each obtain t where "ser gap (ind @ gap) (snd m) = Some t" "lexes t (toks (snd m))"
        by blast
      then show "lexes (?text m) (?toks m)"
        using bw(4) lexes_member [of t "toks (snd m)" ?sp "fst m"] by simp
    qed
    then have "list_all2 lexes (map ?text ms) (map ?toks ms)"
      by (simp add: list_all2_map1 list_all2_map2 list_all2_same)
    then have "lexes (join (CHR '','' # ?w) (map ?text ms)) (join [TComma] (map ?toks ms))"
      using False bw(1) by (intro lexes_join) simp_all
    then have "lexes (CHR ''{'' # ?w @ join (CHR '','' # ?w) (map ?text ms) @ ?w1 @ ''}'')
                     (TLBrace # join [TComma] (map ?toks ms) @ [TRBrace])"
      using bw by (intro lexes_object)
    then show ?thesis
      unfolding ser_object_text [OF False some] by simp
  qed
qed

text \<open>The round trip of a value that a JSON text can hold, for any gap of blanks.\<close>

lemma parse_ser:
  assumes "json_safe v" and "blank gap"
  shows "\<exists>t. ser gap [] v = Some t \<and> JSON_parse t = Some v"
proof -
  from ser_lexes [OF assms blank_Nil] obtain t where
    t: "ser gap [] v = Some t" "lexes t (toks v)"
    by blast
  have "delim []" by (simp add: delim_def)
  with t(2) have "lex (t @ []) = map_option (\<lambda>us. toks v @ us) (lex [])"
    unfolding lexes_def by blast
  then have l: "lex t = Some (toks v)" by (simp add: lex.simps)
  have "run (SVal []) (toks v @ []) = run (deliver v []) []"
    using parses_toks [OF assms(1)] unfolding parses_def by blast
  then have "run (SVal []) (toks v) = Some (SDone v)" by simp
  with l t(1) show ?thesis by (simp add: JSON_parse_def)
qed
section \<open>\<^verbatim>\<open>exportJSON\<close>\<close>

lemma blank_spaces: "blank (replicate n (CHR '' ''))"
  by (simp add: blank_def json_ws_def)

text \<open>
  C4, as the code has it. For every cache whose values a JSON text can hold (no number
  is \<open>NaN\<close> or infinite, nothing is \<^verbatim>\<open>undefined\<close>), parsing the text of \<open>exportJSON\<close> gives
  the cache back: the array of its objects, each with the same keys in the same order and
  the same values.
\<close>

theorem exportJSON_round_trip:
  assumes "json_safe (cache_value cs)"
  shows "JSON_parse (exportJSON cs) = Some (cache_value cs)"
proof -
  from parse_ser [OF assms blank_spaces, of "min 2 10"] obtain t where
    "ser (replicate (min 2 10) (CHR '' '')) [] (cache_value cs) = Some t"
    "JSON_parse t = Some (cache_value cs)"
    by blast
  then show ?thesis by (simp add: exportJSON_def JSON_stringify_def)
qed

theorem exportJSON_round_trip_witness:
  "json_safe (cache_value [alice, awkward])
   \<and> JSON_parse (exportJSON [alice, awkward]) = Some (cache_value [alice, awkward])"
proof -
  have h: "json_safe (cache_value [alice, awkward])" by code_simp
  from exportJSON_round_trip [OF h] h show ?thesis by simp
qed

text \<open>
  The claim as written, for every cache, fails. Restoring a backup whose score is the text
  \<^verbatim>\<open>abc\<close> writes the score \<open>NaN\<close>; the cache then holds \<open>NaN\<close>, which the export prints as
  \<^verbatim>\<open>null\<close>, and the parser gives \<^verbatim>\<open>null\<close> back.
\<close>

theorem exportJSON_round_trip_counterexample:
  "get_prop (hd nan_cache) ''pontuacao'' = JNum NaN
   \<and> JSON_parse (exportJSON nan_cache) \<noteq> Some (cache_value nan_cache)
   \<and> map_option (\<lambda>v. map (\<lambda>c. get_prop (members c) ''pontuacao'') (elements v))
        (JSON_parse (exportJSON nan_cache)) = Some [JNull]"
  by code_simp

end
